theory Spec2Isabelle
  imports Complex_Main "HOL-Library.Multiset"
begin

section \<open>Entity model\<close>

text \<open>
  The optimizer of the softball team solver (classes \<open>Player\<close>, \<open>Team\<close> and
  \<open>TeamOptimizer\<close>).  JavaScript numbers that carry scores, rates and fitness values are
  modelled as exact reals; counts, indices and team ids are naturals.  Of a player only
  the fields the optimizer reads are kept.
\<close>

text \<open>
  Abnormal outcomes: a thrown \<open>TypeError\<close>, and the number \<open>NaN\<close> where a fitness was
  expected (the reals have no such value).
\<close>

datatype error = TypeError | NotANumber

record Player =
  name :: string
  position :: string
  totalScore :: real
  attendance :: real
  isCoach :: bool
  coAssignGroup :: "nat option"

definition isOutfielder :: "Player \<Rightarrow> bool" where
  "isOutfielder p = (position p = ''CF'' \<or> position p = ''OF'')"

text \<open>
  A team holds references to the players of the optimizer's player array.  A reference is
  modelled by the player's index in that array, so that two players with equal data stay
  distinct; the accessors of a team take the player array to read a player's fields.
\<close>

record Team =
  teamId :: nat
  team_players :: "nat list"

definition Team_new :: "nat \<Rightarrow> Team" where
  "Team_new i = \<lparr>teamId = i, team_players = []\<rparr>"

definition addPlayer :: "Team \<Rightarrow> nat \<Rightarrow> Team" where
  "addPlayer team p = team\<lparr>team_players := team_players team @ [p]\<rparr>"

definition getPositionCount :: "Player list \<Rightarrow> Team \<Rightarrow> string \<Rightarrow> nat" where
  "getPositionCount ps team pos =
     (if pos = ''OF'' then length (filter (\<lambda>i. isOutfielder (ps ! i)) (team_players team))
      else length (filter (\<lambda>i. position (ps ! i) = pos) (team_players team)))"

definition getAverageSkill :: "Player list \<Rightarrow> Team \<Rightarrow> real" where
  "getAverageSkill ps team =
     (if length (team_players team) = 0 then 0
      else fold (\<lambda>i acc. acc + totalScore (ps ! i)) (team_players team) 0
           / real (length (team_players team)))"

definition getAverageAttendance :: "Player list \<Rightarrow> Team \<Rightarrow> real" where
  "getAverageAttendance ps team =
     (if length (team_players team) = 0 then 0
      else fold (\<lambda>i acc. acc + attendance (ps ! i)) (team_players team) 0
           / real (length (team_players team)))"

definition getSkillVariance :: "Player list \<Rightarrow> Team \<Rightarrow> real" where
  "getSkillVariance ps team =
     (if length (team_players team) < 2 then 0
      else let avg = getAverageSkill ps team;
               squaredDiffs = map (\<lambda>i. (totalScore (ps ! i) - avg) ^ 2) (team_players team)
           in fold (\<lambda>b a. a + b) squaredDiffs 0 / real (length (team_players team)))"

section \<open>The optimizer and its random source\<close>

text \<open>
  \<open>Math.random()\<close> is an ambient source of numbers in \<open>[0, 1)\<close>.  The model threads it
  explicitly: a source is the sequence of numbers the calls will return, and every
  operation that draws returns the rest of the sequence.
\<close>

type_synonym rng = "nat \<Rightarrow> real"

definition unit_rng :: "rng \<Rightarrow> bool" where
  "unit_rng g = (\<forall>i. 0 \<le> g i \<and> g i < 1)"

definition random :: "rng \<Rightarrow> real \<times> rng" where
  "random g = (g 0, \<lambda>i. g (Suc i))"

text \<open>\<open>Math.floor(Math.random() * n)\<close>\<close>

definition randomInt :: "nat \<Rightarrow> rng \<Rightarrow> nat \<times> rng" where
  "randomInt n g = (case random g of (r, g') \<Rightarrow> (nat \<lfloor>r * real n\<rfloor>, g'))"

text \<open>
  The constructor stores the players, the team count and the options
  (\<open>options.populationSize || 300\<close>, \<open>options.generations || 500\<close>, whether a progress
  callback was given).  \<open>numPlayers\<close> and \<open>coAssignGroups\<close> are computed once from the
  players and never assigned again, so they are functions of the record.
\<close>

record TeamOptimizer =
  players :: "Player list"
  numTeams :: nat
  populationSize :: nat
  generations :: nat
  onProgress :: bool

definition new_TeamOptimizer ::
  "Player list \<Rightarrow> nat \<Rightarrow> nat option \<Rightarrow> nat option \<Rightarrow> bool \<Rightarrow> TeamOptimizer" where
  "new_TeamOptimizer ps n optPopulationSize optGenerations cb =
     \<lparr>players = ps, numTeams = n,
      populationSize = (case optPopulationSize of None \<Rightarrow> 300 | Some k \<Rightarrow> if k = 0 then 300 else k),
      generations = (case optGenerations of None \<Rightarrow> 500 | Some k \<Rightarrow> if k = 0 then 500 else k),
      onProgress = cb\<rparr>"

definition numPlayers :: "TeamOptimizer \<Rightarrow> nat" where
  "numPlayers opt = length (players opt)"

text \<open>
  \<open>buildCoAssignGroups\<close> fills an object keyed by group id.  Group ids are integers below
  \<open>2 ^ 32 - 1\<close>; such keys are enumerated in ascending order, so the object is an
  association list kept sorted by key; the members of a group are in the order they
  were pushed.
\<close>

fun group_push :: "nat \<Rightarrow> nat \<Rightarrow> (nat \<times> nat list) list \<Rightarrow> (nat \<times> nat list) list" where
  "group_push g idx [] = [(g, [idx])]"
| "group_push g idx ((k, v) # rest) =
     (if g = k then (k, v @ [idx]) # rest
      else if g < k then (g, [idx]) # (k, v) # rest
      else (k, v) # group_push g idx rest)"

definition buildCoAssignGroups :: "Player list \<Rightarrow> (nat \<times> nat list) list" where
  "buildCoAssignGroups ps =
     fold (\<lambda>(idx, player) groups.
             case coAssignGroup player of
               None \<Rightarrow> groups
             | Some g \<Rightarrow> group_push g idx groups)
          (enumerate 0 ps) []"

definition coAssignGroups :: "TeamOptimizer \<Rightarrow> (nat \<times> nat list) list" where
  "coAssignGroups opt = buildCoAssignGroups (players opt)"

text \<open>\<open>Object.values(this.coAssignGroups).some(group => group.includes(i))\<close>\<close>

definition isCoAssigned :: "TeamOptimizer \<Rightarrow> nat \<Rightarrow> bool" where
  "isCoAssigned opt i = list_ex (\<lambda>(g, members). i \<in> set members) (coAssignGroups opt)"

section \<open>Encoding\<close>

type_synonym Individual = "nat list"

definition valid_individual :: "TeamOptimizer \<Rightarrow> Individual \<Rightarrow> bool" where
  "valid_individual opt ind = (length ind = numPlayers opt \<and> list_all (\<lambda>t. t < numTeams opt) ind)"

text \<open>The grouping invariant: the members of every co-assign group share one team.\<close>

definition grouped :: "TeamOptimizer \<Rightarrow> Individual \<Rightarrow> bool" where
  "grouped opt ind =
     list_all (\<lambda>(g, members). list_all (\<lambda>i. list_all (\<lambda>j. ind ! i = ind ! j) members) members)
       (coAssignGroups opt)"

definition assignGroup :: "nat list \<Rightarrow> nat \<Rightarrow> Individual \<Rightarrow> Individual" where
  "assignGroup members team individual = fold (\<lambda>idx ind. ind[idx := team]) members individual"

definition createIndividual :: "TeamOptimizer \<Rightarrow> rng \<Rightarrow> Individual \<times> rng" where
  "createIndividual opt g0 =
     (let individual0 = replicate (numPlayers opt) 0;
          assigned0 = replicate (numPlayers opt) False;
          (individual1, assigned1, g1) =
             fold (\<lambda>(groupId, playerIndices) (individual, assigned, g).
                     case randomInt (numTeams opt) g of (team, g') \<Rightarrow>
                       (assignGroup playerIndices team individual,
                        fold (\<lambda>idx a. a[idx := True]) playerIndices assigned, g'))
                  (coAssignGroups opt) (individual0, assigned0, g0)
      in fold (\<lambda>i (individual, g).
                 if \<not> assigned1 ! i
                 then (case randomInt (numTeams opt) g of (team, g') \<Rightarrow> (individual[i := team], g'))
                 else (individual, g))
              [0..<numPlayers opt] (individual1, g1))"

text \<open>
  \<open>decodeIndividual\<close>: \<open>teams[teamId].addPlayer(...)\<close> throws a TypeError when the cell
  names no team.
\<close>

definition decodeIndividual :: "TeamOptimizer \<Rightarrow> Individual \<Rightarrow> error + Team list" where
  "decodeIndividual opt individual =
     fold (\<lambda>(playerIdx, tid) acc.
             case acc of
               Inl e \<Rightarrow> Inl e
             | Inr teams \<Rightarrow>
                 if tid < length teams
                 then Inr (teams[tid := addPlayer (teams ! tid) playerIdx])
                 else Inl TypeError)
          (enumerate 0 individual)
          (Inr (map Team_new [0..<numTeams opt]))"

section \<open>Repair engine\<close>

definition requiredPositions :: "string list" where
  "requiredPositions = [''SS'', ''CF'', ''2B'', ''3B'', ''P'', ''1B'', ''C'']"

text \<open>
  \<open>Math.max(...sizes) - Math.min(...sizes) > 1\<close>.  Of an empty array the maximum is
  \<open>-Infinity\<close> and the minimum \<open>Infinity\<close>, so the test is false there.
\<close>

definition maxSize :: "nat list \<Rightarrow> nat" where
  "maxSize sizes = Max (set sizes)"

definition minSize :: "nat list \<Rightarrow> nat" where
  "minSize sizes = Min (set sizes)"

definition sizesUnbalanced :: "nat list \<Rightarrow> bool" where
  "sizesUnbalanced sizes = (sizes \<noteq> [] \<and> int (maxSize sizes) - int (minSize sizes) > 1)"

text \<open>\<open>Array.prototype.indexOf\<close>, for a value that occurs (all its uses here).\<close>

fun indexOf :: "'a list \<Rightarrow> 'a \<Rightarrow> nat" where
  "indexOf [] v = 0"
| "indexOf (x # xs) v = (if x = v then 0 else Suc (indexOf xs v))"

text \<open>
  \<open>swapPositionPlayer\<close> (its \<open>teams\<close> argument is not read).  The result is the returned
  boolean, the individual after the call and the rest of the random source.
\<close>

definition isMatch :: "Player \<Rightarrow> string \<Rightarrow> bool" where
  "isMatch player pos = (if pos = ''OF'' \<and> isOutfielder player then True
                         else position player = pos)"

definition swapPositionPlayer ::
  "TeamOptimizer \<Rightarrow> Individual \<Rightarrow> nat \<Rightarrow> nat \<Rightarrow> string \<Rightarrow> rng \<Rightarrow> bool \<times> Individual \<times> rng" where
  "swapPositionPlayer opt individual donorTeamId recipientTeamId pos g =
     (let donorPlayers =
            filter (\<lambda>i. individual ! i = donorTeamId \<and> isMatch (players opt ! i) pos
                         \<and> \<not> isCoAssigned opt i)
                   [0..<length individual]
      in if length donorPlayers > 0
         then (case randomInt (length donorPlayers) g of
                 (k, g') \<Rightarrow> (True, individual[donorPlayers ! k := recipientTeamId], g'))
         else (False, individual, g))"

text \<open>The donor conditions of the first and of the second search of \<open>fixMissingPosition\<close>.\<close>

definition firstTry :: "Player list \<Rightarrow> Team \<Rightarrow> string \<Rightarrow> bool" where
  "firstTry ps team neededPos =
     (if neededPos = ''OF'' then getPositionCount ps team ''OF'' > 3
      else getPositionCount ps team neededPos > 1)"

definition secondTry :: "Player list \<Rightarrow> Team \<Rightarrow> string \<Rightarrow> bool" where
  "secondTry ps team neededPos =
     (if neededPos = ''OF'' then getPositionCount ps team ''OF'' > 2
      else getPositionCount ps team neededPos > 0)"

text \<open>One \<open>for (teamId ...)\<close> loop of \<open>fixMissingPosition\<close>, over the team ids left.\<close>

fun donorLoop ::
  "TeamOptimizer \<Rightarrow> (Team \<Rightarrow> bool) \<Rightarrow> Team list \<Rightarrow> nat \<Rightarrow> string \<Rightarrow> nat list
     \<Rightarrow> Individual \<Rightarrow> rng \<Rightarrow> bool \<times> Individual \<times> rng" where
  "donorLoop opt eligible teams needyTeamId neededPos [] individual g = (False, individual, g)"
| "donorLoop opt eligible teams needyTeamId neededPos (tid # rest) individual g =
     (if tid = needyTeamId then donorLoop opt eligible teams needyTeamId neededPos rest individual g
      else if eligible (teams ! tid)
      then (case swapPositionPlayer opt individual tid needyTeamId neededPos g of
              (True, individual', g') \<Rightarrow> (True, individual', g')
            | (False, individual', g') \<Rightarrow>
                donorLoop opt eligible teams needyTeamId neededPos rest individual' g')
      else donorLoop opt eligible teams needyTeamId neededPos rest individual g)"

definition fixMissingPosition ::
  "TeamOptimizer \<Rightarrow> Individual \<Rightarrow> Team list \<Rightarrow> nat \<Rightarrow> string \<Rightarrow> rng \<Rightarrow> bool \<times> Individual \<times> rng" where
  "fixMissingPosition opt individual teams needyTeamId neededPos g =
     (case donorLoop opt (\<lambda>team. firstTry (players opt) team neededPos) teams needyTeamId neededPos
             [0..<length teams] individual g of
        (True, individual', g') \<Rightarrow> (True, individual', g')
      | (False, individual', g') \<Rightarrow>
          donorLoop opt (\<lambda>team. secondTry (players opt) team neededPos) teams needyTeamId neededPos
            [0..<length teams] individual' g')"

definition checkPositionsCovered :: "Player list \<Rightarrow> Team list \<Rightarrow> bool" where
  "checkPositionsCovered ps teams =
     list_all (\<lambda>team. list_all (\<lambda>pos. \<not> getPositionCount ps team pos < 1) requiredPositions
                      \<and> \<not> getPositionCount ps team ''OF'' < 3) teams"

text \<open>The loop over the required positions of one team in \<open>repairPositions\<close>.\<close>

fun positionLoop ::
  "TeamOptimizer \<Rightarrow> Team list \<Rightarrow> nat \<Rightarrow> string list \<Rightarrow> Individual \<Rightarrow> rng
     \<Rightarrow> bool \<times> Individual \<times> rng" where
  "positionLoop opt teams tid [] individual g = (False, individual, g)"
| "positionLoop opt teams tid (pos # rest) individual g =
     (if getPositionCount (players opt) (teams ! tid) pos < 1
      then (case fixMissingPosition opt individual teams tid pos g of
              (True, individual', g') \<Rightarrow> (True, individual', g')
            | (False, individual', g') \<Rightarrow> positionLoop opt teams tid rest individual' g')
      else positionLoop opt teams tid rest individual g)"

text \<open>The loop over the teams of \<open>repairPositions\<close>.\<close>

fun teamLoop ::
  "TeamOptimizer \<Rightarrow> Team list \<Rightarrow> nat list \<Rightarrow> Individual \<Rightarrow> rng \<Rightarrow> bool \<times> Individual \<times> rng" where
  "teamLoop opt teams [] individual g = (False, individual, g)"
| "teamLoop opt teams (tid # rest) individual g =
     (case positionLoop opt teams tid requiredPositions individual g of
        (True, individual', g') \<Rightarrow> (True, individual', g')
      | (False, individual', g') \<Rightarrow>
          if getPositionCount (players opt) (teams ! tid) ''OF'' < 3
          then (case fixMissingPosition opt individual' teams tid ''OF'' g' of
                  (True, individual'', g'') \<Rightarrow> (True, individual'', g'')
                | (False, individual'', g'') \<Rightarrow> teamLoop opt teams rest individual'' g'')
          else teamLoop opt teams rest individual' g')"

definition repairPositions ::
  "TeamOptimizer \<Rightarrow> Individual \<Rightarrow> Team list \<Rightarrow> rng \<Rightarrow> bool \<times> Individual \<times> rng" where
  "repairPositions opt individual teams g = teamLoop opt teams [0..<length teams] individual g"

text \<open>
  \<open>movePlayer\<close> (its \<open>teams\<close> argument is not read).  When the chosen player is
  co-assigned, the first group that holds it moves as a whole.
\<close>

fun moveGroupOf :: "(nat \<times> nat list) list \<Rightarrow> nat \<Rightarrow> nat \<Rightarrow> Individual \<Rightarrow> Individual" where
  "moveGroupOf [] playerIdx toTeamId individual = individual[playerIdx := toTeamId]"
| "moveGroupOf ((groupId, groupMembers) # rest) playerIdx toTeamId individual =
     (if playerIdx \<in> set groupMembers
      then assignGroup groupMembers toTeamId individual
      else moveGroupOf rest playerIdx toTeamId individual)"

definition movePlayer ::
  "TeamOptimizer \<Rightarrow> Individual \<Rightarrow> nat \<Rightarrow> nat \<Rightarrow> rng \<Rightarrow> Individual \<times> rng" where
  "movePlayer opt individual fromTeamId toTeamId g =
     (let fromTeamPlayerIndices = filter (\<lambda>i. individual ! i = fromTeamId) [0..<length individual];
          nonCoAssignPlayers = filter (\<lambda>i. \<not> isCoAssigned opt i) fromTeamPlayerIndices
      in if length nonCoAssignPlayers > 0
         then (case randomInt (length nonCoAssignPlayers) g of
                 (k, g') \<Rightarrow> (individual[nonCoAssignPlayers ! k := toTeamId], g'))
         else if length fromTeamPlayerIndices > 0
         then (case randomInt (length fromTeamPlayerIndices) g of
                 (k, g') \<Rightarrow>
                   (moveGroupOf (coAssignGroups opt) (fromTeamPlayerIndices ! k) toTeamId individual, g'))
         else (individual, g))"

definition balanceTeamSizes ::
  "TeamOptimizer \<Rightarrow> Individual \<Rightarrow> nat list \<Rightarrow> rng \<Rightarrow> Individual \<times> rng" where
  "balanceTeamSizes opt individual teamSizes g =
     (if sizesUnbalanced teamSizes
      then movePlayer opt individual (indexOf teamSizes (maxSize teamSizes))
             (indexOf teamSizes (minSize teamSizes)) g
      else (individual, g))"

text \<open>
  One pass of the loop of \<open>repairIndividual\<close>: either the loop goes on (\<open>continue\<close>, or a
  position was fixed) or the function is left (\<open>return\<close>, or \<open>break\<close>).
\<close>

datatype pass_result = Continue Individual rng | Leave Individual rng

definition repairPass :: "TeamOptimizer \<Rightarrow> Individual \<Rightarrow> rng \<Rightarrow> error + pass_result" where
  "repairPass opt individual g =
     (case decodeIndividual opt individual of
        Inl e \<Rightarrow> Inl e
      | Inr teams \<Rightarrow>
          let teamSizes = map (\<lambda>t. length (team_players t)) teams in
          if sizesUnbalanced teamSizes
          then (case balanceTeamSizes opt individual teamSizes g of
                  (individual', g') \<Rightarrow> Inr (Continue individual' g'))
          else if checkPositionsCovered (players opt) teams then Inr (Leave individual g)
          else (case repairPositions opt individual teams g of
                  (True, individual', g') \<Rightarrow> Inr (Continue individual' g')
                | (False, individual', g') \<Rightarrow> Inr (Leave individual' g')))"

definition maxIterations :: nat where
  "maxIterations = 100"

text \<open>
  The loop of \<open>repairIndividual\<close>, from pass \<open>iteration\<close> on.  Besides the individual and
  the random source it returns the number of passes that were started.
\<close>

function repairLoop ::
  "TeamOptimizer \<Rightarrow> nat \<Rightarrow> Individual \<Rightarrow> rng \<Rightarrow> error + (Individual \<times> rng \<times> nat)" where
  "repairLoop opt iteration individual g =
     (if iteration < maxIterations
      then (case repairPass opt individual g of
              Inl e \<Rightarrow> Inl e
            | Inr (Continue individual' g') \<Rightarrow> repairLoop opt (iteration + 1) individual' g'
            | Inr (Leave individual' g') \<Rightarrow> Inr (individual', g', iteration + 1))
      else Inr (individual, g, iteration))"
  by pat_completeness auto
termination
  by (relation "measure (\<lambda>(opt, iteration, individual, g). maxIterations - iteration)") auto

declare repairLoop.simps [simp del]

definition repairIndividual ::
  "TeamOptimizer \<Rightarrow> Individual \<Rightarrow> rng \<Rightarrow> error + (Individual \<times> rng \<times> nat)" where
  "repairIndividual opt individual g = repairLoop opt 0 individual g"

section \<open>Fitness evaluator\<close>

text \<open>\<open>values.reduce((a, b) => a + b, 0)\<close>\<close>

definition reduce_sum :: "real list \<Rightarrow> real" where
  "reduce_sum values = fold (\<lambda>b a. a + b) values 0"

text \<open>
  \<open>variance\<close> with numbers as exact reals, as everywhere in the fitness; its
  double-precision reading is \<open>variance_double\<close> below.
\<close>

definition variance :: "real list \<Rightarrow> real" where
  "variance values =
     (if length values < 2 then 0
      else let mean = reduce_sum values / real (length values);
               squaredDiffs = map (\<lambda>v. (v - mean) ^ 2) values
           in reduce_sum squaredDiffs / real (length values))"

text \<open>The body of \<open>teams.forEach\<close> in \<open>evaluate\<close>: what one team adds to \<open>penalty\<close>.\<close>

definition teamPenalty :: "Player list \<Rightarrow> Team \<Rightarrow> nat \<Rightarrow> nat" where
  "teamPenalty ps team penalty =
     (let penalty1 = fold (\<lambda>pos pen. if getPositionCount ps team pos < 1 then pen + 10000 else pen)
                       requiredPositions penalty;
          totalOF = getPositionCount ps team ''OF'';
          penalty2 = (if totalOF < 3 then penalty1 + 5000 * (3 - totalOF) else penalty1)
      in if length (team_players team) < 9
         then penalty2 + 2000 * (9 - length (team_players team))
         else penalty2)"

definition groupPenalty :: "TeamOptimizer \<Rightarrow> Individual \<Rightarrow> nat \<Rightarrow> nat" where
  "groupPenalty opt individual penalty =
     fold (\<lambda>(groupId, playerIndices) pen.
             if card (set (map (\<lambda>idx. individual ! idx) playerIndices)) > 1 then pen + 500 else pen)
          (coAssignGroups opt) penalty"

definition sizePenalty :: "nat list \<Rightarrow> nat \<Rightarrow> nat" where
  "sizePenalty teamSizes penalty =
     (if sizesUnbalanced teamSizes
      then penalty + 3000 * (maxSize teamSizes - minSize teamSizes - 1)
      else penalty)"

definition coachPenalty :: "TeamOptimizer \<Rightarrow> Team list \<Rightarrow> nat" where
  "coachPenalty opt teams =
     (let totalCoaches = length (filter isCoach (players opt)) in
      if totalCoaches > 0
      then let coachesPerTeam =
                 map (\<lambda>t. length (filter (\<lambda>i. isCoach (players opt ! i)) (team_players t))) teams
           in if totalCoaches \<ge> numTeams opt
              then fold (\<lambda>count cp. if count = 0 then cp + 50
                                     else if count > 1 then cp + 30 * (count - 1) else cp)
                        coachesPerTeam 0
              else fold (\<lambda>count cp. if count > 1 then cp + 50 * (count - 1) else cp)
                        coachesPerTeam 0
      else 0)"

text \<open>
  \<open>evaluate\<close>.  With no team at all the mean of the within-team variances is \<open>0 / 0\<close>,
  which is \<open>NaN\<close>.
\<close>

definition evaluate :: "TeamOptimizer \<Rightarrow> Individual \<Rightarrow> error + real" where
  "evaluate opt individual =
     (case decodeIndividual opt individual of
        Inl e \<Rightarrow> Inl e
      | Inr teams \<Rightarrow>
          if teams = [] then Inl NotANumber
          else
            let ps = players opt;
                penalty = sizePenalty (map (\<lambda>t. length (team_players t)) teams)
                            (groupPenalty opt individual (fold (teamPenalty ps) teams 0));
                skillVariance = variance (map (getAverageSkill ps) teams);
                attendanceVariance = variance (map (getAverageAttendance ps) teams);
                withinTeamVariances = map (getSkillVariance ps) teams;
                avgWithinVariance = reduce_sum withinTeamVariances / real (length teams)
            in Inr (real penalty + skillVariance * 50 + attendanceVariance * 10
                    + avgWithinVariance * 0.5 + real (coachPenalty opt teams)))"

section \<open>Genetic operators\<close>

definition nonCoAssign :: "TeamOptimizer \<Rightarrow> nat list" where
  "nonCoAssign opt = filter (\<lambda>i. \<not> isCoAssigned opt i) [0..<numPlayers opt]"

text \<open>The swap loop of \<open>crossover\<close>, over the positions \<open>point1 \<le> i < point2\<close>.\<close>

definition swapSegment ::
  "nat list \<Rightarrow> Individual \<times> Individual \<Rightarrow> Individual \<times> Individual" where
  "swapSegment idxs offspring =
     fold (\<lambda>idx (offspring1, offspring2).
             (offspring1[idx := offspring2 ! idx], offspring2[idx := offspring1 ! idx]))
          idxs offspring"

definition crossover ::
  "TeamOptimizer \<Rightarrow> Individual \<Rightarrow> Individual \<Rightarrow> rng \<Rightarrow> error + (Individual \<times> Individual \<times> rng)" where
  "crossover opt ind1 ind2 g0 =
     (case random g0 of (r, g1) \<Rightarrow>
        let (offspring1, offspring2, g2) =
              (if r < 0.7
               then (if length (nonCoAssign opt) > 2
                     then (case randomInt (length (nonCoAssign opt)) g1 of (point1, g1') \<Rightarrow>
                           case randomInt (length (nonCoAssign opt) - point1) g1' of (d, g1'') \<Rightarrow>
                             let point2 = point1 + d;
                                 (o1, o2) = swapSegment (map (\<lambda>i. nonCoAssign opt ! i) [point1..<point2])
                                              (ind1, ind2)
                             in (o1, o2, g1''))
                     else (ind1, ind2, g1))
               else (ind1, ind2, g1))
        in case repairIndividual opt offspring1 g2 of
             Inl e \<Rightarrow> Inl e
           | Inr (offspring1', g3, n1) \<Rightarrow>
               (case repairIndividual opt offspring2 g3 of
                  Inl e \<Rightarrow> Inl e
                | Inr (offspring2', g4, n2) \<Rightarrow> Inr (offspring1', offspring2', g4)))"

definition mutationRate :: real where
  "mutationRate = 0.1"

text \<open>
  \<open>mutate\<close>.  \<open>this.coAssignGroups[groupId]\<close> is the lookup of the key in the object; on
  a key that is not there \<open>forEach\<close> of \<open>undefined\<close> would throw.
\<close>

definition mutate :: "TeamOptimizer \<Rightarrow> Individual \<Rightarrow> rng \<Rightarrow> error + (Individual \<times> rng)" where
  "mutate opt individual g0 =
     (let (mutated1, g1) =
            fold (\<lambda>idx (mutated, g).
                    case random g of (r, g') \<Rightarrow>
                      if r < mutationRate
                      then (case randomInt (numTeams opt) g' of (team, g'') \<Rightarrow> (mutated[idx := team], g''))
                      else (mutated, g'))
                 (nonCoAssign opt) (individual, g0);
          groupIds = map fst (coAssignGroups opt)
      in case (if length groupIds > 0
               then (case random g1 of (r, g2) \<Rightarrow>
                       if r < 0.1
                       then (case randomInt (length groupIds) g2 of (k, g3) \<Rightarrow>
                             case randomInt (numTeams opt) g3 of (newTeam, g4) \<Rightarrow>
                               (case map_of (coAssignGroups opt) (groupIds ! k) of
                                  None \<Rightarrow> Inl TypeError
                                | Some members \<Rightarrow> Inr (assignGroup members newTeam mutated1, g4)))
                       else Inr (mutated1, g2))
               else Inr (mutated1, g1)) of
           Inl e \<Rightarrow> Inl e
         | Inr (mutated2, g5) \<Rightarrow>
             (case repairIndividual opt mutated2 g5 of
                Inl e \<Rightarrow> Inl e
              | Inr (mutated3, g6, n) \<Rightarrow> Inr (mutated3, g6)))"

section \<open>Evolution driver\<close>

text \<open>
  \<open>tournamentSelection\<close> with the default tournament size 3.  \<open>Array.prototype.sort\<close> is
  stable, so the first of the competitors of least fitness is returned.  On an empty
  population the competitors hold \<open>undefined\<close> and the copy throws.
\<close>

definition tournamentSelection ::
  "Individual list \<Rightarrow> real list \<Rightarrow> rng \<Rightarrow> error + (Individual \<times> rng)" where
  "tournamentSelection population fitnesses g0 =
     (case randomInt (length population) g0 of (i1, g1) \<Rightarrow>
      case randomInt (length population) g1 of (i2, g2) \<Rightarrow>
      case randomInt (length population) g2 of (i3, g3) \<Rightarrow>
        if population = [] then Inl TypeError
        else let competitors = map (\<lambda>idx. (population ! idx, fitnesses ! idx)) [i1, i2, i3]
             in Inr (fst (hd (sort_key snd competitors)), g3))"

record progress =
  generation :: nat
  bestFitness :: real
  avgFitness :: real
  completed :: bool

text \<open>
  The state of a run: the current population, the best individual with its fitness
  (\<open>None\<close> while \<open>bestIndividual\<close> is \<open>null\<close> and \<open>bestFitness\<close> is \<open>Infinity\<close>), the progress
  events reported so far and the random source.  \<open>evaluated\<close> records the populations that
  were evaluated, oldest first; the program does not keep them.
\<close>

record run =
  population :: "Individual list"
  best :: "(Individual \<times> real) option"
  events :: "progress list"
  evaluated :: "Individual list list"
  source :: rng

fun evaluateAll :: "TeamOptimizer \<Rightarrow> Individual list \<Rightarrow> error + real list" where
  "evaluateAll opt [] = Inr []"
| "evaluateAll opt (ind # rest) =
     (case evaluate opt ind of
        Inl e \<Rightarrow> Inl e
      | Inr f \<Rightarrow> (case evaluateAll opt rest of Inl e \<Rightarrow> Inl e | Inr fs \<Rightarrow> Inr (f # fs)))"

text \<open>The \<open>while (newPopulation.length < this.populationSize)\<close> loop.\<close>

function breed ::
  "TeamOptimizer \<Rightarrow> Individual list \<Rightarrow> real list \<Rightarrow> Individual list \<Rightarrow> rng
     \<Rightarrow> error + (Individual list \<times> rng)" where
  "breed opt pop fitnesses newPopulation g =
     (if length newPopulation < populationSize opt
      then (case tournamentSelection pop fitnesses g of
              Inl e \<Rightarrow> Inl e
            | Inr (parent1, g1) \<Rightarrow>
          (case tournamentSelection pop fitnesses g1 of
              Inl e \<Rightarrow> Inl e
            | Inr (parent2, g2) \<Rightarrow>
          (case crossover opt parent1 parent2 g2 of
              Inl e \<Rightarrow> Inl e
            | Inr (offspring1, offspring2, g3) \<Rightarrow>
          (case mutate opt offspring1 g3 of
              Inl e \<Rightarrow> Inl e
            | Inr (offspring1', g4) \<Rightarrow>
          (case mutate opt offspring2 g4 of
              Inl e \<Rightarrow> Inl e
            | Inr (offspring2', g5) \<Rightarrow>
                breed opt pop fitnesses
                  (if length (newPopulation @ [offspring1']) < populationSize opt
                   then newPopulation @ [offspring1', offspring2']
                   else newPopulation @ [offspring1'])
                  g5)))))
      else Inr (newPopulation, g))"
  by pat_completeness auto
termination
  by (relation "measure (\<lambda>(opt, pop, fitnesses, newPopulation, g).
                           populationSize opt - length newPopulation)") auto

declare breed.simps [simp del]

text \<open>
  The update of \<open>bestIndividual\<close> and \<open>bestFitness\<close> in a generation:
  \<open>Math.min(...fitnesses)\<close> is \<open>Infinity\<close> for an empty array and replaces nothing.
\<close>

definition trackBest ::
  "(Individual \<times> real) option \<Rightarrow> Individual list \<Rightarrow> real list \<Rightarrow> (Individual \<times> real) option" where
  "trackBest b pop fitnesses =
     (if fitnesses \<noteq> [] \<and> (case b of None \<Rightarrow> True | Some (bi, bf) \<Rightarrow> Min (set fitnesses) < bf)
      then Some (pop ! indexOf fitnesses (Min (set fitnesses)), Min (set fitnesses))
      else b)"

text \<open>
  One generation.  A fitness that is \<open>NaN\<close> makes \<open>Math.min\<close> return \<open>NaN\<close>, every
  comparison with it is false, and since every individual of a run is decoded into the
  same number of teams this happens in generation 0 or never: \<open>bestIndividual\<close> is still
  \<open>null\<close> and its copy \<open>[...bestIndividual]\<close> throws.  The same copy throws when the
  population is empty.  A run that throws keeps no events.
\<close>

definition generationStep :: "TeamOptimizer \<Rightarrow> nat \<Rightarrow> run \<Rightarrow> error + run" where
  "generationStep opt gen st =
     (case evaluateAll opt (population st) of
        Inl e \<Rightarrow> Inl TypeError
      | Inr fitnesses \<Rightarrow>
          let best' = trackBest (best st) (population st) fitnesses
          in case best' of
               None \<Rightarrow> Inl TypeError
             | Some (bi, bf) \<Rightarrow>
                 let events' =
                       (if onProgress opt \<and> gen mod 10 = 0
                        then events st @
                               [\<lparr>generation = gen, bestFitness = bf,
                                 avgFitness = reduce_sum fitnesses / real (length fitnesses),
                                 completed = False\<rparr>]
                        else events st)
                 in case breed opt (population st) fitnesses [bi] (source st) of
                      Inl e \<Rightarrow> Inl e
                    | Inr (newPopulation, g') \<Rightarrow>
                        Inr \<lparr>population = newPopulation, best = best', events = events',
                             evaluated = evaluated st @ [population st], source = g'\<rparr>)"

function optimizeLoop :: "TeamOptimizer \<Rightarrow> nat \<Rightarrow> run \<Rightarrow> error + run" where
  "optimizeLoop opt gen st =
     (if gen < generations opt
      then (case generationStep opt gen st of
              Inl e \<Rightarrow> Inl e
            | Inr st' \<Rightarrow> optimizeLoop opt (gen + 1) st')
      else Inr st)"
  by pat_completeness auto
termination
  by (relation "measure (\<lambda>(opt, gen, st). generations opt - gen)") auto

declare optimizeLoop.simps [simp del]

text \<open>\<open>Array.from({ length: this.populationSize }, () => this.createIndividual())\<close>\<close>

definition createPopulation :: "TeamOptimizer \<Rightarrow> rng \<Rightarrow> Individual list \<times> rng" where
  "createPopulation opt g0 =
     fold (\<lambda>i (pop, g). case createIndividual opt g of (ind, g') \<Rightarrow> (pop @ [ind], g'))
          [0..<populationSize opt] ([], g0)"

text \<open>
  \<open>optimize\<close> returns the decoded teams; the model returns with them the final state of
  the run, whose events include the final report.  With no best individual
  \<open>decodeIndividual(null)\<close> throws.
\<close>

definition optimize :: "TeamOptimizer \<Rightarrow> rng \<Rightarrow> error + (Team list \<times> run)" where
  "optimize opt g0 =
     (case createPopulation opt g0 of (population0, g1) \<Rightarrow>
      case optimizeLoop opt 0
             \<lparr>population = population0, best = None, events = [], evaluated = [], source = g1\<rparr> of
        Inl e \<Rightarrow> Inl e
      | Inr st \<Rightarrow>
          (case best st of
             None \<Rightarrow> Inl TypeError
           | Some (bi, bf) \<Rightarrow>
               let events' =
                     (if onProgress opt
                      then events st @
                             [\<lparr>generation = generations opt, bestFitness = bf, avgFitness = bf,
                               completed = True\<rparr>]
                      else events st)
               in case decodeIndividual opt bi of
                    Inl e \<Rightarrow> Inl e
                  | Inr teams \<Rightarrow> Inr (teams, st\<lparr>events := events'\<rparr>)))"

section \<open>Example configuration\<close>

text \<open>
  A random source that always returns 0, a player as the \<open>Player\<close> constructor builds it
  from a name, a position and a co-assign group (a positive id, or none; the constructor
  turns the id 0 into no group), all other fields at their defaults, and a small
  optimizer: three players in two teams, the first two players forming co-assign group 7.
\<close>

definition rng0 :: rng where
  "rng0 = (\<lambda>i. 0)"

definition mkPlayer :: "string \<Rightarrow> string \<Rightarrow> nat option \<Rightarrow> Player" where
  "mkPlayer nm pos grp =
     \<lparr>name = nm, position = pos, totalScore = 0, attendance = 1, isCoach = False, coAssignGroup = grp\<rparr>"

definition opt3 :: TeamOptimizer where
  "opt3 = new_TeamOptimizer
            [mkPlayer ''ann'' ''P'' (Some 7), mkPlayer ''bob'' ''OF'' (Some 7), mkPlayer ''cy'' ''OF'' None]
            2 (Some 2) (Some 1) True"

definition optOF :: TeamOptimizer where
  "optOF = new_TeamOptimizer
            [mkPlayer ''ann'' ''P'' None, mkPlayer ''bob'' ''OF'' None, mkPlayer ''cy'' ''OF'' None]
            2 (Some 2) (Some 1) True"





definition optDH :: TeamOptimizer where
  "optDH = new_TeamOptimizer [mkPlayer ''ann'' ''DH'' None, mkPlayer ''bob'' ''DH'' None]
             2 (Some 2) (Some 1) True"

section \<open>Double-precision arithmetic\<close>

text \<open>
  JavaScript numbers are IEEE 754 binary64 values.  For \<open>variance\<close>, the one helper whose
  claimed properties depend on rounding, the arithmetic is modelled as the program runs
  it.  A double is a finite number \<open>mant * 2 ^ expo\<close>, \<open>Infinity\<close>, \<open>-Infinity\<close> or \<open>NaN\<close>.
  A finite double is kept in the encoding of the format (\<open>is_double\<close> below): zero is
  \<open>Double 0 0\<close>; otherwise the exponent lies between -1074 and 971 and the mantissa has
  exactly 53 bits, or fewer when the exponent is -1074 (a subnormal number).  The sign
  of zero is not kept: \<open>variance\<close> divides only by the length of its argument, so none of
  its results depends on that sign.
\<close>

datatype double = Double (mant: int) (expo: int) | PosInf | NegInf | NaN

definition dzero :: double where
  "dzero = Double 0 0"

text \<open>The number of binary digits of \<open>\<bar>m\<bar>\<close>.\<close>

function bits :: "int \<Rightarrow> nat" where
  "bits m = (if m = 0 then 0 else Suc (bits (\<bar>m\<bar> div 2)))"
  by pat_completeness auto
termination
  by (relation "measure (\<lambda>m. nat \<bar>m\<bar>)") auto

text \<open>\<open>m / 2 ^ k\<close> rounded to the nearest integer, a tie to the even one.\<close>

definition nearest_even :: "int \<Rightarrow> nat \<Rightarrow> int" where
  "nearest_even m k =
     (let q = m div 2 ^ k; r = m mod 2 ^ k; h = 2 ^ (k - 1)
      in if r < h then q else if h < r then q + 1 else if even q then q else q + 1)"

text \<open>
  The double \<open>m * 2 ^ q\<close> for a mantissa of absolute value at most \<open>2 ^ 53\<close>: a mantissa
  of \<open>2 ^ 53\<close> is carried into the exponent, and a number beyond the largest finite
  double, \<open>(2 ^ 53 - 1) * 2 ^ 971\<close>, overflows to an infinity.
\<close>

definition pack :: "int \<Rightarrow> int \<Rightarrow> double" where
  "pack m q =
     (let carry = (\<bar>m\<bar> = 2 ^ 53);
          m' = (if carry then m div 2 else m);
          q' = (if carry then q + 1 else q)
      in if m' = 0 then dzero
         else if 971 < q' then (if 0 < m' then PosInf else NegInf)
         else Double m' q')"

text \<open>
  Rounding of the exact number \<open>m * 2 ^ e\<close> to a double, to nearest with ties to even:
  to 53 significant bits, or to a multiple of \<open>2 ^ -1074\<close> where that is coarser (gradual
  underflow).
\<close>

definition round_double :: "int \<Rightarrow> int \<Rightarrow> double" where
  "round_double m e =
     (let q = max (e + int (bits m) - 53) (- 1074)
      in pack (if q \<le> e then m * 2 ^ nat (e - q) else nearest_even m (nat (q - e))) q)"

definition dneg :: "double \<Rightarrow> double" where
  "dneg x = (case x of Double m e \<Rightarrow> Double (- m) e | PosInf \<Rightarrow> NegInf | NegInf \<Rightarrow> PosInf | NaN \<Rightarrow> NaN)"

text \<open>
  \<open>x + y\<close>: the exact sum of two finite numbers, rounded; an infinity absorbs a finite
  number, and the sum of opposite infinities is \<open>NaN\<close>.
\<close>

definition dadd :: "double \<Rightarrow> double \<Rightarrow> double" where
  "dadd x y =
     (case (x, y) of
        (Double a ea, Double b eb) \<Rightarrow>
          (let e = min ea eb in round_double (a * 2 ^ nat (ea - e) + b * 2 ^ nat (eb - e)) e)
      | (Double a ea, _) \<Rightarrow> y
      | (NaN, _) \<Rightarrow> NaN
      | (_, Double b eb) \<Rightarrow> x
      | (_, NaN) \<Rightarrow> NaN
      | (PosInf, PosInf) \<Rightarrow> PosInf
      | (NegInf, NegInf) \<Rightarrow> NegInf
      | _ \<Rightarrow> NaN)"

definition dsub :: "double \<Rightarrow> double \<Rightarrow> double" where
  "dsub x y = dadd x (dneg y)"

text \<open>
  \<open>Math.pow(x, 2)\<close>: the rounded product \<open>x * x\<close>, which is what the \<open>pow\<close> routine of
  the JavaScript engines returns for the exponent 2 (the language standard leaves the
  accuracy of \<open>Math.pow\<close> to the implementation).
\<close>

definition dsquare :: "double \<Rightarrow> double" where
  "dsquare x = (case x of Double m e \<Rightarrow> round_double (m * m) (2 * e) | NaN \<Rightarrow> NaN | _ \<Rightarrow> PosInf)"

text \<open>
  Division by a positive count (\<open>sum / values.length\<close>): the quotient is computed with
  more than 64 bits and a sticky bit for the remainder, then rounded.
\<close>

definition ddiv_count :: "double \<Rightarrow> nat \<Rightarrow> double" where
  "ddiv_count x n =
     (case x of
        Double m e \<Rightarrow>
          (let s = 64 + bits (int n);
               num = m * 2 ^ s;
               q = num div int n;
               sticky = (if num mod int n = 0 then 0 else 1)
           in round_double (2 * q + sticky) (e - int s - 1))
      | _ \<Rightarrow> x)"

text \<open>\<open>values.reduce((a, b) => a + b, 0)\<close> and \<open>variance\<close>, in double precision.\<close>

definition reduce_dsum :: "double list \<Rightarrow> double" where
  "reduce_dsum values = fold (\<lambda>b a. dadd a b) values dzero"

definition variance_double :: "double list \<Rightarrow> double" where
  "variance_double values =
     (if length values < 2 then dzero
      else let mean = ddiv_count (reduce_dsum values) (length values);
               squaredDiffs = map (\<lambda>v. dsquare (dsub v mean)) values
           in ddiv_count (reduce_dsum squaredDiffs) (length values))"

text \<open>
  The encoding of the format, the finite doubles, and the real number a finite double
  stands for.
\<close>

definition is_double :: "double \<Rightarrow> bool" where
  "is_double x =
     (case x of
        Double m e \<Rightarrow> (m = 0 \<and> e = 0)
                       \<or> (m \<noteq> 0 \<and> e \<le> 971 \<and> e = max (e + int (bits m) - 53) (- 1074))
      | _ \<Rightarrow> True)"

definition is_finite :: "double \<Rightarrow> bool" where
  "is_finite x = (case x of Double m e \<Rightarrow> True | _ \<Rightarrow> False)"

definition dval :: "double \<Rightarrow> real option" where
  "dval x = (case x of Double m e \<Rightarrow> Some (real_of_int m * 2 powi e) | _ \<Rightarrow> None)"

text \<open>
  The doubles written \<open>0.1\<close> and \<open>0.2\<close> (the quotients of 1 by 10 and by 5, rounded),
  \<open>1\<close>, \<open>2\<close>, \<open>6\<close>, \<open>1e308\<close> and \<open>5e-324\<close> (the least positive double).
\<close>

definition tenth :: double where
  "tenth = ddiv_count (Double 1 0) 10"

definition fifth :: double where
  "fifth = ddiv_count (Double 1 0) 5"

definition double_one :: double where
  "double_one = Double 4503599627370496 (- 52)"

definition double_two :: double where
  "double_two = Double 4503599627370496 (- 51)"

definition double_six :: double where
  "double_six = Double 6755399441055744 (- 50)"

definition d1e308 :: double where
  "d1e308 = Double 5010420900022432 971"

definition tiny :: double where
  "tiny = Double 1 (- 1074)"

section \<open>Auxiliary notions\<close>

text \<open>
  Well-formed groups: no player index occurs twice in the groups, and all are indices of
  players.  \<open>teamOf\<close> is the team a valid individual decodes to.  \<open>moves\<close> relates
  an individual to what the operators can make of it: single cells of players outside
  every group are rewritten, and whole groups are reassigned, to teams that satisfy \<open>P\<close>.
\<close>

definition wf_groups :: "nat \<Rightarrow> (nat \<times> nat list) list \<Rightarrow> bool" where
  "wf_groups n groups = (distinct (concat (map snd groups)) \<and> (\<forall>i \<in> set (concat (map snd groups)). i < n))"

definition teamOf :: "Individual \<Rightarrow> nat \<Rightarrow> Team" where
  "teamOf ind t = \<lparr>teamId = t, team_players = filter (\<lambda>i. ind ! i = t) [0..<length ind]\<rparr>"

definition cfg_ok :: "TeamOptimizer \<Rightarrow> bool" where
  "cfg_ok opt = (0 < numTeams opt \<or> numPlayers opt = 0)"

definition team_ok :: "TeamOptimizer \<Rightarrow> nat \<Rightarrow> bool" where
  "team_ok opt t = (t < numTeams opt \<or> numPlayers opt = 0)"

inductive moves :: "TeamOptimizer \<Rightarrow> (nat \<Rightarrow> bool) \<Rightarrow> Individual \<Rightarrow> Individual \<Rightarrow> bool"
  for opt P where
  same: "moves opt P ind ind"
| free: "moves opt P ind ind' \<Longrightarrow> \<not> isCoAssigned opt idx \<Longrightarrow> P t \<Longrightarrow> moves opt P ind (ind'[idx := t])"
| group: "moves opt P ind ind' \<Longrightarrow> (gid, ms) \<in> set (coAssignGroups opt) \<Longrightarrow> P t
           \<Longrightarrow> moves opt P ind (assignGroup ms t ind')"

definition freeDonors :: "TeamOptimizer \<Rightarrow> Individual \<Rightarrow> nat \<Rightarrow> string \<Rightarrow> nat list" where
  "freeDonors opt individual donorTeamId pos =
     filter (\<lambda>i. individual ! i = donorTeamId \<and> isMatch (players opt ! i) pos \<and> \<not> isCoAssigned opt i)
            [0..<length individual]"

definition ok3 :: "TeamOptimizer \<Rightarrow> Individual \<Rightarrow> bool \<times> Individual \<times> rng \<Rightarrow> bool" where
  "ok3 opt ind r = (case r of (b, ind', g') \<Rightarrow> moves opt (team_ok opt) ind ind' \<and> unit_rng g')"

definition okPass :: "TeamOptimizer \<Rightarrow> Individual \<Rightarrow> pass_result \<Rightarrow> bool" where
  "okPass opt ind r = (case r of Continue ind' g' \<Rightarrow> moves opt (team_ok opt) ind ind' \<and> unit_rng g'
                               | Leave ind' g' \<Rightarrow> moves opt (team_ok opt) ind ind' \<and> unit_rng g')"

section \<open>Facts about the random source and the co-assign groups\<close>

lemma random_unit: "unit_rng g \<Longrightarrow> unit_rng (snd (random g))"
  by (simp add: unit_rng_def random_def)

lemma random_range: "unit_rng g \<Longrightarrow> 0 \<le> fst (random g) \<and> fst (random g) < 1"
  by (simp add: unit_rng_def random_def)

lemma randomInt_unit: "unit_rng g \<Longrightarrow> unit_rng (snd (randomInt n g))"
  by (simp add: randomInt_def random_def unit_rng_def)

lemma randomInt_less: 
  assumes "unit_rng g" "0 < n" shows "fst (randomInt n g) < n"
proof -
  have r: "0 \<le> g 0" "g 0 < 1" using assms(1) by (auto simp: unit_rng_def)
  have "g 0 * real n < real n" using r assms(2) by simp
  then have "\<lfloor>g 0 * real n\<rfloor> < int n" by (simp add: floor_less_iff)
  moreover have "0 \<le> \<lfloor>g 0 * real n\<rfloor>" using r by simp
  ultimately show ?thesis by (simp add: randomInt_def random_def nat_less_iff)
qed

lemma set_group_push: "set (concat (map snd (group_push g i gs))) = insert i (set (concat (map snd gs)))"
  by (induction g i gs rule: group_push.induct) auto

lemma distinct_group_push: 
  "distinct (concat (map snd gs)) \<Longrightarrow> i \<notin> set (concat (map snd gs)) \<Longrightarrow> distinct (concat (map snd (group_push g i gs)))"
proof (induction g i gs rule: group_push.induct)
  case (1 g idx)
  then show ?case by simp
next
  case (2 g idx k v rest)
  then show ?case using set_group_push[of g idx rest] by auto
qed

lemma build_fold_wf:
  "wf_groups k acc \<Longrightarrow>
   wf_groups (k + length ps)
     (fold (\<lambda>(idx, player) groups. case coAssignGroup player of None \<Rightarrow> groups | Some g \<Rightarrow> group_push g idx groups)
        (enumerate k ps) acc)"
proof (induction ps arbitrary: k acc)
  case Nil
  then show ?case by simp
next
  case (Cons p ps)
  let ?acc' = "case coAssignGroup p of None \<Rightarrow> acc | Some g \<Rightarrow> group_push g k acc"
  have "wf_groups (Suc k) ?acc'"
  proof (cases "coAssignGroup p")
    case None
    then show ?thesis using Cons.prems by (auto simp: wf_groups_def less_Suc_eq)
  next
    case (Some g)
    have "k \<notin> set (concat (map snd acc))" using Cons.prems by (auto simp: wf_groups_def)
    then show ?thesis using Cons.prems Some distinct_group_push[of acc k g] set_group_push[of g k acc]
      by (auto simp: wf_groups_def less_Suc_eq)
  qed
  from Cons.IH[OF this] show ?case by simp
qed

lemma wf_coAssignGroups: "wf_groups (numPlayers opt) (coAssignGroups opt)"
  using build_fold_wf[of 0 "[]" "players opt"]
  by (simp add: coAssignGroups_def buildCoAssignGroups_def numPlayers_def wf_groups_def)

lemma isCoAssigned_iff: "isCoAssigned opt i \<longleftrightarrow> (\<exists>(g, ms) \<in> set (coAssignGroups opt). i \<in> set ms)"
  by (auto simp: isCoAssigned_def list_ex_iff)

lemma isCoAssigned_iff2: "isCoAssigned opt i \<longleftrightarrow> i \<in> set (concat (map snd (coAssignGroups opt)))"
  by (force simp: isCoAssigned_iff)

lemma filter_snoc_cells:
  "filter (\<lambda>i. (xs @ [x]) ! i = t) [0..<Suc (length xs)] =
   filter (\<lambda>i. xs ! i = t) [0..<length xs] @ (if x = t then [length xs] else [])"
proof -
  have "filter (\<lambda>i. (xs @ [x]) ! i = t) [0..<length xs] = filter (\<lambda>i. xs ! i = t) [0..<length xs]"
    by (rule filter_cong[OF refl]) (simp add: nth_append)
  then show ?thesis by simp
qed

lemma decode_fold:
  "list_all (\<lambda>t. t < n) ind \<Longrightarrow>
   fold (\<lambda>(playerIdx, tid) acc.
             case acc of
               Inl e \<Rightarrow> Inl e
             | Inr teams \<Rightarrow>
                 if tid < length teams
                 then Inr (teams[tid := addPlayer (teams ! tid) playerIdx])
                 else Inl TypeError)
          (enumerate 0 ind)
          (Inr (map Team_new [0..<n]))
   = Inr (map (teamOf ind) [0..<n])"
proof (induction ind rule: rev_induct)
  case Nil
  then show ?case by (simp add: teamOf_def Team_new_def)
next
  case (snoc x xs)
  have x: "x < n" and xs: "list_all (\<lambda>t. t < n) xs" using snoc.prems by auto
  have upd: "(map (teamOf xs) [0..<n])[x := addPlayer (map (teamOf xs) [0..<n] ! x) (length xs)]
             = map (teamOf (xs @ [x])) [0..<n]"
  proof (rule nth_equalityI)
    show "length ((map (teamOf xs) [0..<n])[x := addPlayer (map (teamOf xs) [0..<n] ! x) (length xs)])
          = length (map (teamOf (xs @ [x])) [0..<n])" by simp
  next
    fix i assume "i < length ((map (teamOf xs) [0..<n])[x := addPlayer (map (teamOf xs) [0..<n] ! x) (length xs)])"
    then have i: "i < n" by simp
    show "(map (teamOf xs) [0..<n])[x := addPlayer (map (teamOf xs) [0..<n] ! x) (length xs)] ! i
          = map (teamOf (xs @ [x])) [0..<n] ! i"
      using i x unfolding teamOf_def addPlayer_def
      by (simp add: nth_list_update filter_snoc_cells del: upt_Suc)
  qed
  have e: "enumerate 0 (xs @ [x]) = enumerate 0 xs @ [(length xs, x)]"
    by (simp add: enumerate_append_eq)
  show ?case
    unfolding e fold_append comp_def snoc.IH[OF xs] using x upd by simp
qed

lemma decodeIndividual_valid:
  "list_all (\<lambda>t. t < numTeams opt) ind \<Longrightarrow>
   decodeIndividual opt ind = Inr (map (teamOf ind) [0..<numTeams opt])"
  unfolding decodeIndividual_def by (rule decode_fold)

lemma moves_trans: "moves opt P b c \<Longrightarrow> moves opt P a b \<Longrightarrow> moves opt P a c"
  by (induction rule: moves.induct) (auto intro: moves.intros)

lemma valid_cfg_ok: "valid_individual opt ind \<Longrightarrow> cfg_ok opt"
  by (cases ind) (auto simp: valid_individual_def cfg_ok_def)

lemma length_assignGroup [simp]: "length (assignGroup ms t ind) = length ind"
  unfolding assignGroup_def by (induction ms arbitrary: ind) auto

lemma nth_update_total: "xs[m := t] ! i = (if i = m \<and> i < length xs then t else xs ! i)"
  by (cases "m < length xs") (auto simp: nth_list_update list_update_beyond)

lemma nth_assignGroup:
  "assignGroup ms t ind ! i = (if i \<in> set ms \<and> i < length ind then t else ind ! i)"
  unfolding assignGroup_def
proof (induction ms arbitrary: ind)
  case Nil
  then show ?case by simp
next
  case (Cons m ms)
  show ?case by (simp add: Cons.IH nth_update_total)
qed

lemma valid_update:
  "valid_individual opt ind \<Longrightarrow> team_ok opt t \<Longrightarrow> valid_individual opt (ind[idx := t])"
  by (auto simp: valid_individual_def team_ok_def list_all_length nth_update_total)

lemma valid_assignGroup:
  "valid_individual opt ind \<Longrightarrow> team_ok opt t \<Longrightarrow> valid_individual opt (assignGroup ms t ind)"
  by (auto simp: valid_individual_def team_ok_def list_all_length nth_assignGroup)

lemma moves_valid:
  "moves opt (team_ok opt) ind ind' \<Longrightarrow> valid_individual opt ind \<Longrightarrow> valid_individual opt ind'"
  by (induction rule: moves.induct) (auto intro: valid_update valid_assignGroup)

lemma moves_length: "moves opt P ind ind' \<Longrightarrow> length ind' = length ind"
  by (induction rule: moves.induct) auto

lemma grouped_iff:
  "grouped opt ind \<longleftrightarrow> (\<forall>(gid, ms) \<in> set (coAssignGroups opt). \<forall>i \<in> set ms. \<forall>j \<in> set ms. ind ! i = ind ! j)"
  by (auto simp: grouped_def list_all_iff)

lemma grouped_update:
  assumes "grouped opt ind" "\<not> isCoAssigned opt idx"
  shows "grouped opt (ind[idx := t])"
proof -
  have "\<And>gid ms i. (gid, ms) \<in> set (coAssignGroups opt) \<Longrightarrow> i \<in> set ms \<Longrightarrow> i \<noteq> idx"
    using assms(2) by (auto simp: isCoAssigned_iff)
  then have "\<And>gid ms i. (gid, ms) \<in> set (coAssignGroups opt) \<Longrightarrow> i \<in> set ms \<Longrightarrow> ind[idx := t] ! i = ind ! i"
    by (simp add: nth_update_total)
  then show ?thesis using assms(1) unfolding grouped_iff by fastforce
qed

lemma groups_disjoint:
  assumes "(gid, ms) \<in> set (coAssignGroups opt)" "(gid', ms') \<in> set (coAssignGroups opt)"
          "i \<in> set ms" "i \<in> set ms'"
  shows "ms' = ms"
proof (rule ccontr)
  assume ne: "ms' \<noteq> ms"
  have d: "distinct (concat (map snd (coAssignGroups opt)))"
    using wf_coAssignGroups[of opt] by (simp add: wf_groups_def)
  have "ms \<in> set (map snd (coAssignGroups opt))" "ms' \<in> set (map snd (coAssignGroups opt))"
    using assms(1,2) by force+
  then have "set ms' \<inter> set ms = {}" using d ne by (auto simp: distinct_concat_iff)
  then show False using assms(3,4) by auto
qed

lemma group_member_lt:
  "(gid, ms) \<in> set (coAssignGroups opt) \<Longrightarrow> i \<in> set ms \<Longrightarrow> i < numPlayers opt"
  using wf_coAssignGroups[of opt] by (force simp: wf_groups_def)

lemma grouped_assignGroup:
  assumes "grouped opt ind" "(gid, ms) \<in> set (coAssignGroups opt)" "length ind = numPlayers opt"
  shows "grouped opt (assignGroup ms t ind)"
  unfolding grouped_iff
proof (intro ballI, clarify)
  fix gid' ms' i j
  assume g': "(gid', ms') \<in> set (coAssignGroups opt)" and i: "i \<in> set ms'" and j: "j \<in> set ms'"
  show "assignGroup ms t ind ! i = assignGroup ms t ind ! j"
  proof (cases "ms' = ms")
    case True
    then show ?thesis using i j group_member_lt[OF assms(2)] assms(3) by (simp add: nth_assignGroup)
  next
    case False
    then have nin: "i \<notin> set ms" "j \<notin> set ms" using groups_disjoint[OF assms(2) g'] i j by auto
    have "ind ! i = ind ! j" using assms(1) g' i j unfolding grouped_iff by blast
    then show ?thesis using nin by (simp add: nth_assignGroup)
  qed
qed

lemma moves_grouped:
  "moves opt P ind ind' \<Longrightarrow> length ind = numPlayers opt \<Longrightarrow> grouped opt ind \<Longrightarrow> grouped opt ind'"
proof (induction rule: moves.induct)
  case same
  then show ?case by simp
next
  case (free ind' idx t)
  then show ?case by (simp add: grouped_update)
next
  case (group ind' gid ms t)
  then show ?case using moves_length[OF group.hyps(1)] by (simp add: grouped_assignGroup)
qed

lemma randomInt_nth:
  "unit_rng g \<Longrightarrow> xs \<noteq> [] \<Longrightarrow> xs ! fst (randomInt (length xs) g) \<in> set xs"
  using randomInt_less[of g "length xs"] by simp

lemma randomInt_team_ok:
  "unit_rng g \<Longrightarrow> cfg_ok opt \<Longrightarrow> team_ok opt (fst (randomInt (numTeams opt) g))"
  using randomInt_less[of g "numTeams opt"] by (auto simp: cfg_ok_def team_ok_def)

lemma swap_none:
  "freeDonors opt ind d pos = [] \<Longrightarrow> swapPositionPlayer opt ind d r pos g = (False, ind, g)"
  by (simp add: swapPositionPlayer_def freeDonors_def)

lemma swap_some:
  assumes "freeDonors opt ind d pos \<noteq> []" "unit_rng g"
  shows "\<exists>idx \<in> set (freeDonors opt ind d pos). 
           swapPositionPlayer opt ind d r pos g = (True, ind[idx := r], snd (randomInt (length (freeDonors opt ind d pos)) g))"
proof -
  have "swapPositionPlayer opt ind d r pos g =
          (True, ind[freeDonors opt ind d pos ! fst (randomInt (length (freeDonors opt ind d pos)) g) := r],
           snd (randomInt (length (freeDonors opt ind d pos)) g))"
    using assms(1) by (simp add: swapPositionPlayer_def freeDonors_def Let_def split: prod.splits)
  then show ?thesis using randomInt_nth[OF assms(2,1)] by blast
qed

lemma swap_cases:
  assumes "unit_rng g"
  shows "swapPositionPlayer opt ind d r pos g = (False, ind, g) \<and> freeDonors opt ind d pos = []
       \<or> (\<exists>idx \<in> set (freeDonors opt ind d pos). \<exists>g'. unit_rng g' \<and> swapPositionPlayer opt ind d r pos g = (True, ind[idx := r], g'))"
proof (cases "freeDonors opt ind d pos = []")
  case True
  then show ?thesis by (simp add: swap_none)
next
  case False
  from swap_some[OF False assms, of r] show ?thesis using randomInt_unit[OF assms] by blast
qed

lemma swap_moves:
  assumes "unit_rng g" "team_ok opt r" "swapPositionPlayer opt ind d r pos g = (b, ind', g')"
  shows "moves opt (team_ok opt) ind ind' \<and> unit_rng g'"
  using swap_cases[OF assms(1), of opt ind d r pos] assms
  by (auto simp: freeDonors_def intro: moves.intros)

lemma ok3I: "moves opt (team_ok opt) ind ind' \<Longrightarrow> unit_rng g' \<Longrightarrow> ok3 opt ind (b, ind', g')"
  by (simp add: ok3_def)

lemma ok3_swap:
  "unit_rng g \<Longrightarrow> team_ok opt r \<Longrightarrow> moves opt (team_ok opt) ind0 ind
   \<Longrightarrow> ok3 opt ind0 (swapPositionPlayer opt ind d r pos g)"
  using swap_moves[of g opt r ind d pos] moves_trans[of opt "team_ok opt" ind _ ind0]
  by (cases "swapPositionPlayer opt ind d r pos g") (auto simp: ok3_def)

lemma ok3_donorLoop:
  "unit_rng g \<Longrightarrow> team_ok opt needy \<Longrightarrow> moves opt (team_ok opt) ind0 ind
   \<Longrightarrow> ok3 opt ind0 (donorLoop opt eligible teams needy pos tids ind g)"
proof (induction tids arbitrary: ind g)
  case Nil
  then show ?case by (simp add: ok3_def)
next
  case (Cons tid rest)
  have s: "ok3 opt ind0 (swapPositionPlayer opt ind tid needy pos g)"
    using Cons.prems by (rule ok3_swap)
  show ?case
  proof (cases "swapPositionPlayer opt ind tid needy pos g")
    case (fields b ind' g')
    then have "moves opt (team_ok opt) ind0 ind'" "unit_rng g'" using s by (auto simp: ok3_def)
    then show ?thesis using fields Cons.IH[of g' ind'] Cons.IH[of g ind] Cons.prems
      by (cases b) (auto simp: ok3_def)
  qed
qed

lemma ok3_fixMissingPosition:
  assumes "unit_rng g" "team_ok opt needy" "moves opt (team_ok opt) ind0 ind"
  shows "ok3 opt ind0 (fixMissingPosition opt ind teams needy pos g)"
proof -
  let ?r = "donorLoop opt (\<lambda>team. firstTry (players opt) team pos) teams needy pos [0..<length teams] ind g"
  have 1: "ok3 opt ind0 ?r" using assms by (rule ok3_donorLoop)
  show ?thesis
  proof (cases ?r)
    case (fields b ind' g')
    then have m: "moves opt (team_ok opt) ind0 ind'" "unit_rng g'" using 1 by (auto simp: ok3_def)
    show ?thesis
      unfolding fixMissingPosition_def fields
      using m ok3_donorLoop[OF m(2) assms(2) m(1)] by (cases b) (auto simp: ok3_def)
  qed
qed

lemma ok3_positionLoop:
  "unit_rng g \<Longrightarrow> team_ok opt tid \<Longrightarrow> moves opt (team_ok opt) ind0 ind
   \<Longrightarrow> ok3 opt ind0 (positionLoop opt teams tid poss ind g)"
proof (induction poss arbitrary: ind g)
  case Nil
  then show ?case by (simp add: ok3_def)
next
  case (Cons pos rest)
  have s: "ok3 opt ind0 (fixMissingPosition opt ind teams tid pos g)"
    using Cons.prems by (rule ok3_fixMissingPosition)
  show ?case
  proof (cases "fixMissingPosition opt ind teams tid pos g")
    case (fields b ind' g')
    then have "moves opt (team_ok opt) ind0 ind'" "unit_rng g'" using s by (auto simp: ok3_def)
    then show ?thesis using fields Cons.IH[of g' ind'] Cons.IH[of g ind] Cons.prems
      by (cases b) (auto simp: ok3_def)
  qed
qed

lemma ok3_teamLoop:
  "unit_rng g \<Longrightarrow> \<forall>tid \<in> set tids. team_ok opt tid \<Longrightarrow> moves opt (team_ok opt) ind0 ind
   \<Longrightarrow> ok3 opt ind0 (teamLoop opt teams tids ind g)"
proof (induction tids arbitrary: ind g)
  case Nil
  then show ?case by (simp add: ok3_def)
next
  case (Cons tid rest)
  have t: "team_ok opt tid" and r: "\<forall>tid \<in> set rest. team_ok opt tid" using Cons.prems(2) by auto
  have s: "ok3 opt ind0 (positionLoop opt teams tid requiredPositions ind g)"
    using Cons.prems(1) t Cons.prems(3) by (rule ok3_positionLoop)
  show ?case
  proof (cases "positionLoop opt teams tid requiredPositions ind g")
    case (fields b ind' g')
    then have m: "moves opt (team_ok opt) ind0 ind'" "unit_rng g'" using s by (auto simp: ok3_def)
    have f: "ok3 opt ind0 (fixMissingPosition opt ind' teams tid ''OF'' g')"
      using m(2) t m(1) by (rule ok3_fixMissingPosition)
    show ?thesis
    proof (cases "fixMissingPosition opt ind' teams tid ''OF'' g'")
      case inner: (fields b2 ind2 g2)
      then have m2: "moves opt (team_ok opt) ind0 ind2" "unit_rng g2" using f by (auto simp: ok3_def)
      show ?thesis
        using fields inner m m2 Cons.IH[OF m(2) r m(1)] Cons.IH[OF m2(2) r m2(1)]
        by (cases b; cases b2) (auto simp: ok3_def)
    qed
  qed
qed

lemma ok3_repairPositions:
  "unit_rng g \<Longrightarrow> length teams = numTeams opt
   \<Longrightarrow> ok3 opt ind (repairPositions opt ind teams g)"
  unfolding repairPositions_def
  by (rule ok3_teamLoop) (auto simp: team_ok_def intro: moves.same)

lemma moveGroupOf_moves:
  "set gs \<subseteq> set (coAssignGroups opt) \<Longrightarrow> team_ok opt t
   \<Longrightarrow> (isCoAssigned opt p \<longrightarrow> (\<exists>(gid, ms) \<in> set gs. p \<in> set ms))
   \<Longrightarrow> moves opt (team_ok opt) ind (moveGroupOf gs p t ind)"
proof (induction gs)
  case Nil
  then show ?case by (auto intro: moves.intros)
next
  case (Cons a gs)
  obtain gid ms where a: "a = (gid, ms)" by (cases a)
  show ?case
  proof (cases "p \<in> set ms")
    case True
    have "(gid, ms) \<in> set (coAssignGroups opt)" using Cons.prems(1) a by simp
    then show ?thesis using True a Cons.prems(2) by (auto intro: moves.intros)
  next
    case False
    then show ?thesis using a Cons by auto
  qed
qed

lemma movePlayer_moves:
  assumes "unit_rng g" "team_ok opt t"
  shows "moves opt (team_ok opt) ind (fst (movePlayer opt ind f t g)) \<and> unit_rng (snd (movePlayer opt ind f t g))"
proof -
  let ?from = "filter (\<lambda>i. ind ! i = f) [0..<length ind]"
  let ?free = "filter (\<lambda>i. \<not> isCoAssigned opt i) ?from"
  show ?thesis
  proof (cases "?free = []")
    case False
    then have "?free ! fst (randomInt (length ?free) g) \<in> set ?free"
      using randomInt_nth[OF assms(1)] by blast
    then have "\<not> isCoAssigned opt (?free ! fst (randomInt (length ?free) g))" by simp
    then show ?thesis using False assms randomInt_unit[OF assms(1)]
      by (auto simp: movePlayer_def Let_def case_prod_beta intro!: moves.free moves.same)
  next
    case True
    show ?thesis
    proof (cases "?from = []")
      case e: True
      then show ?thesis using True assms by (auto simp: movePlayer_def Let_def intro: moves.same)
    next
      case ne: False
      have "moves opt (team_ok opt) ind (moveGroupOf (coAssignGroups opt) (?from ! fst (randomInt (length ?from) g)) t ind)"
        by (rule moveGroupOf_moves) (auto simp: assms isCoAssigned_iff)
      then show ?thesis using True ne assms randomInt_unit[OF assms(1)]
        by (auto simp: movePlayer_def Let_def case_prod_beta)
    qed
  qed
qed

lemma indexOf_less: "v \<in> set xs \<Longrightarrow> indexOf xs v < length xs"
  by (induction xs) auto


lemma balance_moves:
  assumes "unit_rng g" "length sizes = numTeams opt"
  shows "moves opt (team_ok opt) ind (fst (balanceTeamSizes opt ind sizes g))
         \<and> unit_rng (snd (balanceTeamSizes opt ind sizes g))"
proof (cases "sizesUnbalanced sizes")
  case True
  then have "sizes \<noteq> []" by (simp add: sizesUnbalanced_def)
  then have "minSize sizes \<in> set sizes" unfolding minSize_def by (simp add: Min_in)
  then have "team_ok opt (indexOf sizes (minSize sizes))"
    using indexOf_less[of "minSize sizes" sizes] assms(2) by (simp add: team_ok_def)
  then show ?thesis using True movePlayer_moves[OF assms(1)] by (simp add: balanceTeamSizes_def)
next
  case False
  then show ?thesis using assms by (simp add: balanceTeamSizes_def moves.same)
qed

lemma repairPass_ok:
  assumes "valid_individual opt ind" "unit_rng g"
  shows "\<exists>r. repairPass opt ind g = Inr r \<and> okPass opt ind r"
proof -
  let ?teams = "map (teamOf ind) [0..<numTeams opt]"
  have d: "decodeIndividual opt ind = Inr ?teams"
    using assms(1) by (simp add: decodeIndividual_valid valid_individual_def)
  let ?sizes = "map (\<lambda>t. length (team_players t)) ?teams"
  have b: "moves opt (team_ok opt) ind (fst (balanceTeamSizes opt ind ?sizes g))
         \<and> unit_rng (snd (balanceTeamSizes opt ind ?sizes g))"
    by (rule balance_moves) (simp_all add: assms)
  have p: "ok3 opt ind (repairPositions opt ind ?teams g)"
    by (rule ok3_repairPositions) (simp_all add: assms)
  show ?thesis
    unfolding repairPass_def d
    using b p assms(2)
    by (auto simp: okPass_def ok3_def Let_def moves.same split: prod.splits bool.splits)
qed

lemma repairLoop_ok:
  "valid_individual opt ind \<Longrightarrow> unit_rng g \<Longrightarrow> 
   \<exists>ind' g' n. repairLoop opt it ind g = Inr (ind', g', n) \<and> moves opt (team_ok opt) ind ind' \<and> unit_rng g'"
proof (induction opt it ind g rule: repairLoop.induct)
  case (1 opt iteration individual g)
  show ?case
  proof (cases "iteration < maxIterations")
    case False
    then show ?thesis using 1 by (subst repairLoop.simps) (simp add: moves.same)
  next
    case True
    from repairPass_ok[OF "1.prems"] obtain r where r: "repairPass opt individual g = Inr r" "okPass opt individual r"
      by blast
    show ?thesis
    proof (cases r)
      case (Continue ind' g')
      then have m: "moves opt (team_ok opt) individual ind'" "unit_rng g'" using r(2) by (auto simp: okPass_def)
      have v: "valid_individual opt ind'" using moves_valid[OF m(1) "1.prems"(1)] .
      from "1.IH"[OF True r(1) Continue v m(2)] obtain i2 g2 n where
        "repairLoop opt (iteration + 1) ind' g' = Inr (i2, g2, n)" "moves opt (team_ok opt) ind' i2" "unit_rng g2"
        by blast
      then show ?thesis using True r(1) Continue m moves_trans[of opt "team_ok opt" ind' i2 individual]
        by (subst repairLoop.simps) auto
    next
      case (Leave ind' g')
      then show ?thesis using True r by (subst repairLoop.simps) (auto simp: okPass_def)
    qed
  qed
qed

lemma repairIndividual_ok:
  "valid_individual opt ind \<Longrightarrow> unit_rng g \<Longrightarrow> 
   \<exists>ind' g' n. repairIndividual opt ind g = Inr (ind', g', n) \<and> moves opt (team_ok opt) ind ind' \<and> unit_rng g'"
  unfolding repairIndividual_def by (rule repairLoop_ok)

lemma nonCoAssign_set: "idx \<in> set (nonCoAssign opt) \<longleftrightarrow> idx < numPlayers opt \<and> \<not> isCoAssigned opt idx"
  by (auto simp: nonCoAssign_def)

lemma mutate_fold_ok:
  "unit_rng g \<Longrightarrow> cfg_ok opt \<Longrightarrow> \<forall>idx \<in> set idxs. \<not> isCoAssigned opt idx
   \<Longrightarrow> moves opt (team_ok opt) ind0 m
   \<Longrightarrow> (case fold (\<lambda>idx (mutated, g).
                    case random g of (r, g') \<Rightarrow>
                      if r < mutationRate
                      then (case randomInt (numTeams opt) g' of (team, g'') \<Rightarrow> (mutated[idx := team], g''))
                      else (mutated, g'))
                 idxs (m, g) of (m', g') \<Rightarrow> moves opt (team_ok opt) ind0 m' \<and> unit_rng g')"
proof (induction idxs arbitrary: m g)
  case Nil
  then show ?case by simp
next
  case (Cons idx idxs)
  let ?g' = "snd (random g)"
  have u1: "unit_rng ?g'" using Cons.prems(1) by (rule random_unit)
  have u2: "unit_rng (snd (randomInt (numTeams opt) ?g'))" using u1 by (rule randomInt_unit)
  have t: "team_ok opt (fst (randomInt (numTeams opt) ?g'))" using u1 Cons.prems(2) by (rule randomInt_team_ok)
  have f: "\<not> isCoAssigned opt idx" and r: "\<forall>idx \<in> set idxs. \<not> isCoAssigned opt idx" using Cons.prems(3) by auto
  have m1: "moves opt (team_ok opt) ind0 (m[idx := fst (randomInt (numTeams opt) ?g')])"
    using Cons.prems(4) f t by (rule moves.free)
  show ?case
    using Cons.IH[OF u2 Cons.prems(2) r m1] Cons.IH[OF u1 Cons.prems(2) r Cons.prems(4)]
    by (simp add: case_prod_beta)
qed

lemma mutate_ok:
  assumes v: "valid_individual opt ind" and u: "unit_rng g"
  shows "\<exists>ind' g'. mutate opt ind g = Inr (ind', g') \<and> moves opt (team_ok opt) ind ind' \<and> unit_rng g'"
proof -
  have c: "cfg_ok opt" using v by (rule valid_cfg_ok)
  let ?F = "(\<lambda>idx (mutated, g).
                    case random g of (r, g') \<Rightarrow>
                      if r < mutationRate
                      then (case randomInt (numTeams opt) g' of (team, g'') \<Rightarrow> (mutated[idx := team], g''))
                      else (mutated, g'))"
  obtain m1 g1 where f: "fold ?F (nonCoAssign opt) (ind, g) = (m1, g1)" by (cases "fold ?F (nonCoAssign opt) (ind, g)")
  have "case fold ?F (nonCoAssign opt) (ind, g) of (m', g') \<Rightarrow> moves opt (team_ok opt) ind m' \<and> unit_rng g'"
    by (rule mutate_fold_ok[OF u c]) (auto simp: nonCoAssign_set intro: moves.same)
  then have m1: "moves opt (team_ok opt) ind m1" and u1: "unit_rng g1" using f by auto
  let ?groups = "coAssignGroups opt"
  let ?ids = "map fst ?groups"
  let ?stage = "(if length ?ids > 0
               then (case random g1 of (r, g2) \<Rightarrow>
                       if r < 0.1
                       then (case randomInt (length ?ids) g2 of (k, g3) \<Rightarrow>
                             case randomInt (numTeams opt) g3 of (newTeam, g4) \<Rightarrow>
                               (case map_of ?groups (?ids ! k) of
                                  None \<Rightarrow> Inl TypeError
                                | Some members \<Rightarrow> Inr (assignGroup members newTeam m1, g4)))
                       else Inr (m1, g2))
               else Inr (m1, g1))"
  have "\<exists>m2 g5. ?stage = Inr (m2, g5) \<and> moves opt (team_ok opt) ind m2 \<and> unit_rng g5"
  proof (cases "length ?ids > 0 \<and> fst (random g1) < 0.1")
    case False
    then show ?thesis using m1 u1 random_unit[OF u1] by (auto simp: case_prod_beta)
  next
    case True
    let ?g2 = "snd (random g1)"
    let ?k = "fst (randomInt (length ?ids) ?g2)"
    let ?g3 = "snd (randomInt (length ?ids) ?g2)"
    let ?t = "fst (randomInt (numTeams opt) ?g3)"
    let ?g4 = "snd (randomInt (numTeams opt) ?g3)"
    have u2: "unit_rng ?g2" using u1 by (rule random_unit)
    have u3: "unit_rng ?g3" using u2 by (rule randomInt_unit)
    have u4: "unit_rng ?g4" using u3 by (rule randomInt_unit)
    have k: "?k < length ?ids" using randomInt_less[OF u2] True by blast
    then have "?ids ! ?k \<in> fst ` set ?groups" by (metis nth_mem set_map)
    then obtain ms where ms: "map_of ?groups (?ids ! ?k) = Some ms"
      by (metis map_of_eq_None_iff not_Some_eq)
    then have "(?ids ! ?k, ms) \<in> set ?groups" by (rule map_of_SomeD)
    moreover have "team_ok opt ?t" using u3 c by (rule randomInt_team_ok)
    ultimately have "moves opt (team_ok opt) ind (assignGroup ms ?t m1)" using m1 by (auto intro: moves.group)
    then show ?thesis using True ms u4 by (simp add: case_prod_beta)
  qed
  then obtain m2 g5 where s: "?stage = Inr (m2, g5)" and m2: "moves opt (team_ok opt) ind m2" and u5: "unit_rng g5"
    by blast
  have v2: "valid_individual opt m2" using m2 v by (rule moves_valid)
  from repairIndividual_ok[OF v2 u5] obtain m3 g6 n where
    r: "repairIndividual opt m2 g5 = Inr (m3, g6, n)" and m3: "moves opt (team_ok opt) m2 m3" and u6: "unit_rng g6"
    by blast
  have "mutate opt ind g = Inr (m3, g6)"
    unfolding mutate_def Let_def f prod.case s by (simp add: r)
  then show ?thesis using moves_trans[OF m3 m2] u6 by blast
qed

lemma swapSegment_ok:
  "\<forall>idx \<in> set idxs. \<not> isCoAssigned opt idx \<and> idx < numPlayers opt
   \<Longrightarrow> valid_individual opt o1 \<Longrightarrow> valid_individual opt o2
   \<Longrightarrow> moves opt (team_ok opt) a o1 \<Longrightarrow> moves opt (team_ok opt) b o2
   \<Longrightarrow> (case swapSegment idxs (o1, o2) of (o1', o2') \<Rightarrow>
          moves opt (team_ok opt) a o1' \<and> moves opt (team_ok opt) b o2')"
  unfolding swapSegment_def
proof (induction idxs arbitrary: o1 o2)
  case Nil
  then show ?case by simp
next
  case (Cons idx idxs)
  have i: "\<not> isCoAssigned opt idx" "idx < numPlayers opt" and r: "\<forall>idx \<in> set idxs. \<not> isCoAssigned opt idx \<and> idx < numPlayers opt"
    using Cons.prems(1) by auto
  have t2: "team_ok opt (o2 ! idx)" and t1: "team_ok opt (o1 ! idx)"
    using Cons.prems(2,3) i(2) by (auto simp: valid_individual_def team_ok_def list_all_length)
  have v1: "valid_individual opt (o1[idx := o2 ! idx])" using Cons.prems(2) t2 by (rule valid_update)
  have v2: "valid_individual opt (o2[idx := o1 ! idx])" using Cons.prems(3) t1 by (rule valid_update)
  have m1: "moves opt (team_ok opt) a (o1[idx := o2 ! idx])" using Cons.prems(4) i(1) t2 by (rule moves.free)
  have m2: "moves opt (team_ok opt) b (o2[idx := o1 ! idx])" using Cons.prems(5) i(1) t1 by (rule moves.free)
  show ?case using Cons.IH[OF r v1 v2 m1 m2] by simp
qed

lemma crossover_ok:
  assumes v1: "valid_individual opt ind1" and v2: "valid_individual opt ind2" and u: "unit_rng g"
  shows "\<exists>o1 o2 g'. crossover opt ind1 ind2 g = Inr (o1, o2, g')
           \<and> moves opt (team_ok opt) ind1 o1 \<and> moves opt (team_ok opt) ind2 o2 \<and> unit_rng g'"
proof -
  let ?n = "length (nonCoAssign opt)"
  let ?g1 = "snd (random g)"
  let ?p1 = "fst (randomInt ?n ?g1)"
  let ?g1' = "snd (randomInt ?n ?g1)"
  let ?d = "fst (randomInt (?n - ?p1) ?g1')"
  let ?g1'' = "snd (randomInt (?n - ?p1) ?g1')"
  let ?seg = "swapSegment (map (\<lambda>i. nonCoAssign opt ! i) [?p1..<?p1 + ?d]) (ind1, ind2)"
  let ?stage = "(if fst (random g) < 0.7
               then (if ?n > 2
                     then (case randomInt ?n ?g1 of (point1, g1') \<Rightarrow>
                           case randomInt (?n - point1) g1' of (d, g1'') \<Rightarrow>
                             let point2 = point1 + d;
                                 (o1, o2) = swapSegment (map (\<lambda>i. nonCoAssign opt ! i) [point1..<point2])
                                              (ind1, ind2)
                             in (o1, o2, g1''))
                     else (ind1, ind2, ?g1))
               else (ind1, ind2, ?g1))"
  have u1: "unit_rng ?g1" using u by (rule random_unit)
  have u1': "unit_rng ?g1'" using u1 by (rule randomInt_unit)
  have u1'': "unit_rng ?g1''" using u1' by (rule randomInt_unit)
  have "\<exists>o1 o2 g2. ?stage = (o1, o2, g2) \<and> moves opt (team_ok opt) ind1 o1 \<and> moves opt (team_ok opt) ind2 o2 \<and> unit_rng g2"
  proof (cases "fst (random g) < 0.7 \<and> ?n > 2")
    case False
    then show ?thesis using u1 by (auto intro: moves.same)
  next
    case True
    have "0 < ?n" using True by linarith
    then have p1: "?p1 < ?n" by (rule randomInt_less[OF u1])
    then have "0 < ?n - ?p1" by simp
    then have "?d < ?n - ?p1" by (rule randomInt_less[OF u1'])
    then have "\<forall>i \<in> set [?p1..<?p1 + ?d]. i < ?n" by auto
    then have "\<forall>idx \<in> set (map (\<lambda>i. nonCoAssign opt ! i) [?p1..<?p1 + ?d]). idx \<in> set (nonCoAssign opt)"
      by auto
    then have ok: "\<forall>idx \<in> set (map (\<lambda>i. nonCoAssign opt ! i) [?p1..<?p1 + ?d]). \<not> isCoAssigned opt idx \<and> idx < numPlayers opt"
      using nonCoAssign_set by blast
    have "case ?seg of (o1', o2') \<Rightarrow> moves opt (team_ok opt) ind1 o1' \<and> moves opt (team_ok opt) ind2 o2'"
      using ok v1 v2 by (rule swapSegment_ok) (rule moves.same)+
    then show ?thesis using True u1'' by (auto simp: case_prod_beta Let_def)
  qed
  then obtain o1 o2 g2 where s: "?stage = (o1, o2, g2)" and m1: "moves opt (team_ok opt) ind1 o1"
      and m2: "moves opt (team_ok opt) ind2 o2" and u2: "unit_rng g2" by blast
  have w1: "valid_individual opt o1" using m1 v1 by (rule moves_valid)
  have w2: "valid_individual opt o2" using m2 v2 by (rule moves_valid)
  from repairIndividual_ok[OF w1 u2] obtain o1' g3 n1 where
    r1: "repairIndividual opt o1 g2 = Inr (o1', g3, n1)" and m1': "moves opt (team_ok opt) o1 o1'" and u3: "unit_rng g3"
    by blast
  from repairIndividual_ok[OF w2 u3] obtain o2' g4 n2 where
    r2: "repairIndividual opt o2 g3 = Inr (o2', g4, n2)" and m2': "moves opt (team_ok opt) o2 o2'" and u4: "unit_rng g4"
    by blast
  have "crossover opt ind1 ind2 g = Inr (o1', o2', g4)"
    unfolding crossover_def using s r1 r2 by (simp add: case_prod_beta)
  then show ?thesis using moves_trans[OF m1' m1] moves_trans[OF m2' m2] u4 by blast
qed

lemma length_mark [simp]: "length (fold (\<lambda>idx a. a[idx := True]) ms a) = length a"
  by (induction ms arbitrary: a) auto

lemma nth_mark:
  "fold (\<lambda>idx a. a[idx := True]) ms a ! i = (if i \<in> set ms \<and> i < length a then True else a ! i)"
proof (induction ms arbitrary: a)
  case Nil
  then show ?case by simp
next
  case (Cons m ms)
  show ?case by (simp add: Cons.IH nth_update_total)
qed

lemma create_groups_ok:
  assumes RP: "\<And>g. R g \<Longrightarrow> R (snd (randomInt (numTeams opt) g)) \<and> P (fst (randomInt (numTeams opt) g))"
  shows "set gs \<subseteq> set (coAssignGroups opt) \<Longrightarrow> R g \<Longrightarrow> moves opt P ind0 ind \<Longrightarrow> length a = numPlayers opt \<Longrightarrow>
   (case fold (\<lambda>(groupId, playerIndices) (individual, assigned, g).
                     case randomInt (numTeams opt) g of (team, g') \<Rightarrow>
                       (assignGroup playerIndices team individual,
                        fold (\<lambda>idx a. a[idx := True]) playerIndices assigned, g'))
                  gs (ind, a, g) of
      (ind', a', g') \<Rightarrow> moves opt P ind0 ind' \<and> R g' \<and> length a' = numPlayers opt
          \<and> (\<forall>i. i < numPlayers opt \<and> (a ! i \<or> i \<in> set (concat (map snd gs))) \<longrightarrow> a' ! i))"
proof (induction gs arbitrary: ind a g)
  case Nil
  then show ?case by simp
next
  case (Cons x gs)
  obtain gid ms where x: "x = (gid, ms)" by (cases x)
  let ?t = "fst (randomInt (numTeams opt) g)"
  let ?g' = "snd (randomInt (numTeams opt) g)"
  let ?a = "fold (\<lambda>idx a. a[idx := True]) ms a"
  have mem: "(gid, ms) \<in> set (coAssignGroups opt)" and sub: "set gs \<subseteq> set (coAssignGroups opt)"
    using Cons.prems(1) x by auto
  have m: "moves opt P ind0 (assignGroup ms ?t ind)"
    using Cons.prems(3) mem RP[OF Cons.prems(2)] by (auto intro: moves.group)
  have R': "R ?g'" using RP[OF Cons.prems(2)] by simp
  have l: "length ?a = numPlayers opt" using Cons.prems(4) by simp
  have "\<forall>i. i < numPlayers opt \<and> (a ! i \<or> i \<in> set ms) \<longrightarrow> ?a ! i"
    using Cons.prems(4) by (simp add: nth_mark)
  then show ?case
    using Cons.IH[OF sub R' m l] x by (auto simp: case_prod_beta)
qed

lemma create_rest_ok:
  assumes RP: "\<And>g. R g \<Longrightarrow> R (snd (randomInt (numTeams opt) g)) \<and> P (fst (randomInt (numTeams opt) g))"
  shows "\<forall>i \<in> set idxs. \<not> a1 ! i \<longrightarrow> \<not> isCoAssigned opt i \<Longrightarrow> R g \<Longrightarrow> moves opt P ind0 ind \<Longrightarrow>
   (case fold (\<lambda>i (individual, g).
                 if \<not> a1 ! i
                 then (case randomInt (numTeams opt) g of (team, g') \<Rightarrow> (individual[i := team], g'))
                 else (individual, g))
              idxs (ind, g) of
      (ind', g') \<Rightarrow> moves opt P ind0 ind' \<and> R g')"
proof (induction idxs arbitrary: ind g)
  case Nil
  then show ?case by simp
next
  case (Cons i idxs)
  have r: "\<forall>i \<in> set idxs. \<not> a1 ! i \<longrightarrow> \<not> isCoAssigned opt i" using Cons.prems(1) by simp
  show ?case
  proof (cases "a1 ! i")
    case True
    then show ?thesis using Cons.IH[OF r Cons.prems(2,3)] by simp
  next
    case False
    then have f: "\<not> isCoAssigned opt i" using Cons.prems(1) by simp
    have m: "moves opt P ind0 (ind[i := fst (randomInt (numTeams opt) g)])"
      using Cons.prems(3) f RP[OF Cons.prems(2)] by (auto intro: moves.free)
    have R': "R (snd (randomInt (numTeams opt) g))" using RP[OF Cons.prems(2)] by simp
    show ?thesis using False Cons.IH[OF r R' m] by (simp add: case_prod_beta)
  qed
qed

lemma createIndividual_moves:
  assumes RP: "\<And>g. R g \<Longrightarrow> R (snd (randomInt (numTeams opt) g)) \<and> P (fst (randomInt (numTeams opt) g))"
      and R0: "R g0"
  shows "moves opt P (replicate (numPlayers opt) 0) (fst (createIndividual opt g0)) \<and> R (snd (createIndividual opt g0))"
proof -
  let ?G = "(\<lambda>(groupId, playerIndices) (individual, assigned, g).
                     case randomInt (numTeams opt) g of (team, g') \<Rightarrow>
                       (assignGroup playerIndices team individual,
                        fold (\<lambda>idx a. a[idx := True]) playerIndices assigned, g'))"
  let ?i0 = "replicate (numPlayers opt) (0::nat)"
  let ?a0 = "replicate (numPlayers opt) False"
  obtain i1 a1 g1 where f: "fold ?G (coAssignGroups opt) (?i0, ?a0, g0) = (i1, a1, g1)"
    by (cases "fold ?G (coAssignGroups opt) (?i0, ?a0, g0)")
  have "case fold ?G (coAssignGroups opt) (?i0, ?a0, g0) of
      (ind', a', g') \<Rightarrow> moves opt P ?i0 ind' \<and> R g' \<and> length a' = numPlayers opt
          \<and> (\<forall>i. i < numPlayers opt \<and> (?a0 ! i \<or> i \<in> set (concat (map snd (coAssignGroups opt)))) \<longrightarrow> a' ! i)"
    by (rule create_groups_ok[where R=R and P=P, OF RP]) (simp_all add: R0 moves.same)
  then have m1: "moves opt P ?i0 i1" and R1: "R g1"
    and a1: "\<And>i. i < numPlayers opt \<Longrightarrow> isCoAssigned opt i \<Longrightarrow> a1 ! i"
    using f by (auto simp: isCoAssigned_iff2)
  have "case fold (\<lambda>i (individual, g).
                 if \<not> a1 ! i
                 then (case randomInt (numTeams opt) g of (team, g') \<Rightarrow> (individual[i := team], g'))
                 else (individual, g))
              [0..<numPlayers opt] (i1, g1) of
      (ind', g') \<Rightarrow> moves opt P ?i0 ind' \<and> R g'"
    by (rule create_rest_ok[where R=R and P=P, OF RP _ R1 m1]) (use a1 in auto)
  then show ?thesis
    unfolding createIndividual_def Let_def f prod.case by (simp add: case_prod_beta)
qed

lemma grouped_replicate: "grouped opt (replicate (numPlayers opt) t)"
  unfolding grouped_iff using group_member_lt by (auto simp: nth_replicate)

lemma valid_replicate: "cfg_ok opt \<Longrightarrow> valid_individual opt (replicate (numPlayers opt) 0)"
  by (auto simp: valid_individual_def cfg_ok_def list_all_length)

lemma createIndividual_grouped: "grouped opt (fst (createIndividual opt g))"
proof -
  have "moves opt (\<lambda>_. True) (replicate (numPlayers opt) 0) (fst (createIndividual opt g)) \<and> True"
    by (rule createIndividual_moves[where R = "\<lambda>_. True" and P = "\<lambda>_. True"]) simp_all
  then show ?thesis using moves_grouped grouped_replicate by (metis length_replicate)
qed

lemma createIndividual_valid:
  assumes "cfg_ok opt" "unit_rng g"
  shows "valid_individual opt (fst (createIndividual opt g)) \<and> unit_rng (snd (createIndividual opt g))"
proof -
  have "moves opt (team_ok opt) (replicate (numPlayers opt) 0) (fst (createIndividual opt g)) \<and> unit_rng (snd (createIndividual opt g))"
    by (rule createIndividual_moves[where R = unit_rng and P = "team_ok opt"]) (simp_all add: assms randomInt_unit randomInt_team_ok)
  then show ?thesis using moves_valid valid_replicate[OF assms(1)] by blast
qed

lemma unit_rng0: "unit_rng rng0"
  by (simp add: unit_rng_def rng0_def)

lemma opt3_simps:
  "numPlayers opt3 = 3" "numTeams opt3 = 2" 
  "coAssignGroups opt3 = [(7, [0, 1])]"
  by (simp_all add: opt3_def new_TeamOptimizer_def numPlayers_def coAssignGroups_def buildCoAssignGroups_def mkPlayer_def)

lemma opt3_valid: "valid_individual opt3 [0, 0, 1]"
  by (simp add: valid_individual_def opt3_simps)

lemma opt3_grouped: "grouped opt3 [0, 0, 1]"
  by (simp add: grouped_def opt3_simps)

lemma repairLoop_passes:
  "repairLoop opt it ind g = Inr (ind', g', n) \<Longrightarrow> it \<le> maxIterations
   \<Longrightarrow> it \<le> n \<and> n \<le> maxIterations \<and> (it < maxIterations \<longrightarrow> it < n)"
proof (induction opt it ind g rule: repairLoop.induct)
  case (1 opt iteration individual g)
  note eq = "1.prems"(1)[unfolded repairLoop.simps[of opt iteration individual g]]
  show ?case
  proof (cases "iteration < maxIterations")
    case False
    then show ?thesis using eq "1.prems"(2) by simp
  next
    case True
    show ?thesis
    proof (cases "repairPass opt individual g")
      case (Inl e)
      then show ?thesis using True eq by simp
    next
      case (Inr r)
      show ?thesis
      proof (cases r)
        case (Continue i2 g2)
        then have "repairLoop opt (iteration + 1) i2 g2 = Inr (ind', g', n)"
          using True Inr eq by simp
        from "1.IH"[OF True Inr Continue this] True show ?thesis by simp
      next
        case (Leave i2 g2)
        then show ?thesis using True Inr eq by auto
      qed
    qed
  qed
qed

lemma decode_fold_error:
  "acc \<noteq> Inl NotANumber \<Longrightarrow>
   fold (\<lambda>(playerIdx, tid) acc.
             case acc of
               Inl e \<Rightarrow> Inl e
             | Inr teams \<Rightarrow>
                 if tid < length teams
                 then Inr (teams[tid := addPlayer (teams ! tid) playerIdx])
                 else Inl TypeError) xs acc \<noteq> Inl NotANumber"
proof (induction xs arbitrary: acc)
  case Nil
  then show ?case by simp
next
  case (Cons x xs)
  obtain i t where x: "x = (i, t)" by (cases x)
  have "(case acc of
               Inl e \<Rightarrow> Inl e
             | Inr teams \<Rightarrow>
                 if t < length teams
                 then Inr (teams[t := addPlayer (teams ! t) i])
                 else Inl TypeError) \<noteq> Inl NotANumber"
    using Cons.prems by (cases acc) auto
  from Cons.IH[OF this] show ?case by (simp add: x)
qed

lemma decodeIndividual_error: "decodeIndividual opt ind = Inl e \<Longrightarrow> e = TypeError"
  using decode_fold_error[of "Inr (map Team_new [0..<numTeams opt])" "enumerate 0 ind"]
  unfolding decodeIndividual_def by (cases e) auto

lemma repairPass_error: "repairPass opt ind g = Inl e \<Longrightarrow> e = TypeError"
  using decodeIndividual_error[of opt ind e]
  by (auto simp: repairPass_def Let_def split: sum.splits prod.splits bool.splits if_splits)

lemma repairLoop_error:
  "repairLoop opt it ind g = Inl e \<Longrightarrow> e = TypeError"
proof (induction opt it ind g rule: repairLoop.induct)
  case (1 opt iteration individual g)
  note eq = "1.prems"(1)[unfolded repairLoop.simps[of opt iteration individual g]]
  show ?case
  proof (cases "iteration < maxIterations")
    case False
    then show ?thesis using eq by simp
  next
    case True
    show ?thesis
    proof (cases "repairPass opt individual g")
      case (Inl e')
      then have "e' = e" using True eq by simp
      then show ?thesis using repairPass_error[OF Inl] by simp
    next
      case (Inr r)
      show ?thesis
      proof (cases r)
        case (Continue i2 g2)
        then have "repairLoop opt (iteration + 1) i2 g2 = Inl e"
          using True Inr eq by simp
        from "1.IH"[OF True Inr Continue this] show ?thesis .
      next
        case (Leave i2 g2)
        then show ?thesis using True Inr eq by auto
      qed
    qed
  qed
qed

lemma donorLoop_find:
  "donorLoop opt eligible teams needy pos tids ind g =
     (case find (\<lambda>t. t \<noteq> needy \<and> eligible (teams ! t) \<and> freeDonors opt ind t pos \<noteq> []) tids of
        None \<Rightarrow> (False, ind, g)
      | Some t \<Rightarrow> swapPositionPlayer opt ind t needy pos g)"
proof (induction tids)
  case Nil
  then show ?case by simp
next
  case (Cons tid rest)
  show ?case
  proof (cases "tid \<noteq> needy \<and> eligible (teams ! tid)")
    case False
    then show ?thesis using Cons.IH by auto
  next
    case True
    show ?thesis
    proof (cases "freeDonors opt ind tid pos = []")
      case e: True
      then show ?thesis using True Cons.IH by (simp add: swap_none)
    next
      case ne: False
      obtain i2 g2 where "swapPositionPlayer opt ind tid needy pos g = (True, i2, g2)"
        using ne by (auto simp: swapPositionPlayer_def freeDonors_def Let_def case_prod_beta)
      then show ?thesis using True ne by simp
    qed
  qed
qed

lemma fixMissingPosition_find:
  "fixMissingPosition opt ind teams needy pos g =
     (case find (\<lambda>t. t \<noteq> needy \<and> firstTry (players opt) (teams ! t) pos \<and> freeDonors opt ind t pos \<noteq> [])
             [0..<length teams] of
        Some t \<Rightarrow> swapPositionPlayer opt ind t needy pos g
      | None \<Rightarrow>
          (case find (\<lambda>t. t \<noteq> needy \<and> secondTry (players opt) (teams ! t) pos \<and> freeDonors opt ind t pos \<noteq> [])
                  [0..<length teams] of
             Some t \<Rightarrow> swapPositionPlayer opt ind t needy pos g
           | None \<Rightarrow> (False, ind, g)))"
proof (cases "find (\<lambda>t. t \<noteq> needy \<and> firstTry (players opt) (teams ! t) pos \<and> freeDonors opt ind t pos \<noteq> [])
             [0..<length teams]")
  case None
  then show ?thesis
    unfolding fixMissingPosition_def donorLoop_find by simp
next
  case (Some t)
  then have "freeDonors opt ind t pos \<noteq> []" by (auto simp: find_Some_iff)
  then obtain i2 g2 where "swapPositionPlayer opt ind t needy pos g = (True, i2, g2)"
    by (auto simp: swapPositionPlayer_def freeDonors_def Let_def case_prod_beta)
  then show ?thesis
    unfolding fixMissingPosition_def donorLoop_find using Some by simp
qed

lemma optOF_simps:
  "numPlayers optOF = 3" "numTeams optOF = 2" "coAssignGroups optOF = []"
  by (simp_all add: optOF_def new_TeamOptimizer_def numPlayers_def coAssignGroups_def buildCoAssignGroups_def mkPlayer_def)

lemma freeDonors_empty_iff:
  "freeDonors opt ind d pos = [] \<longleftrightarrow>
     (\<forall>i < length ind. ind ! i = d \<and> isMatch (players opt ! i) pos \<longrightarrow> isCoAssigned opt i)"
  by (auto simp: freeDonors_def filter_empty_conv)

lemma reduce_sum_eq: "reduce_sum xs = sum_list xs"
proof -
  have "fold (\<lambda>b a. a + b) xs s = s + sum_list xs" for s :: real
    by (induction xs arbitrary: s) auto
  then show ?thesis by (simp add: reduce_sum_def)
qed










lemma evaluateAll_Inr:
  "evaluateAll opt pop = Inr fs \<Longrightarrow>
   length fs = length pop \<and> (\<forall>i < length pop. evaluate opt (pop ! i) = Inr (fs ! i))"
proof (induction pop arbitrary: fs)
  case Nil
  then show ?case by simp
next
  case (Cons ind pop)
  from Cons.prems obtain f fs' where f: "evaluate opt ind = Inr f" and r: "evaluateAll opt pop = Inr fs'"
    and e: "fs = f # fs'"
    by (auto split: sum.splits)
  from Cons.IH[OF r] have "length fs' = length pop" "\<forall>i < length pop. evaluate opt (pop ! i) = Inr (fs' ! i)"
    by auto
  then show ?case using f e by (auto simp: nth_Cons split: nat.splits)
qed






lemma generationStep_best_mono:
  "generationStep opt gen st = Inr st' \<Longrightarrow> best st = Some (b, f)
   \<Longrightarrow> \<exists>b' f'. best st' = Some (b', f') \<and> f' \<le> f"
  unfolding generationStep_def trackBest_def
  by (auto simp: Let_def split: sum.splits option.splits prod.splits if_splits)





lemma rng0_draws: "random rng0 = (0, rng0)" "randomInt n rng0 = (0, rng0)"
  by (simp_all add: randomInt_def random_def rng0_def)

lemma optDH_simps:
  "players optDH = [mkPlayer ''ann'' ''DH'' None, mkPlayer ''bob'' ''DH'' None]"
  "numPlayers optDH = 2" "numTeams optDH = 2" "populationSize optDH = 2" "generations optDH = 1"
  "onProgress optDH" "coAssignGroups optDH = []" "isCoAssigned optDH i = False"
  "nonCoAssign optDH = [0, 1]"
  by (simp_all add: optDH_def new_TeamOptimizer_def numPlayers_def coAssignGroups_def
        buildCoAssignGroups_def mkPlayer_def isCoAssigned_def nonCoAssign_def upt_rec)

lemma optDH_decode:
  "decodeIndividual optDH [0, 0] = Inr [\<lparr>teamId = 0, team_players = [0, 1]\<rparr>, \<lparr>teamId = 1, team_players = []\<rparr>]"
  "decodeIndividual optDH [1, 0] = Inr [\<lparr>teamId = 0, team_players = [1]\<rparr>, \<lparr>teamId = 1, team_players = [0]\<rparr>]"
  by code_simp+

lemma optDH_counts:
  "getPositionCount (players optDH) team pos = 0"
  if "set (team_players team) \<subseteq> {0, 1}" "pos \<noteq> ''DH''"
proof -
  have "\<And>i. i \<in> set (team_players team) \<Longrightarrow> position (players optDH ! i) = ''DH''"
    using that by (auto simp: optDH_simps mkPlayer_def)
  then show ?thesis using that(2) by (auto simp: getPositionCount_def isOutfielder_def filter_empty_conv)
qed

lemma optDH_teamPenalty:
  "teamPenalty (players optDH) team p = p + 85000 + 2000 * (9 - length (team_players team))"
  if "set (team_players team) \<subseteq> {0, 1}"
  by (simp add: teamPenalty_def Let_def requiredPositions_def optDH_counts[OF that])

lemma sizes_20:
  "sizesUnbalanced [Suc (Suc 0), 0]" "maxSize [Suc (Suc 0), 0] = 2" "minSize [Suc (Suc 0), 0] = 0"
  "\<not> sizesUnbalanced [Suc 0, Suc 0]"
  by (simp_all add: sizesUnbalanced_def maxSize_def minSize_def)

lemma variance_values: "variance [0, 0] = 0" "variance [1, 0] = 1 / 4" "variance [1, 1] = 0"
  by (simp_all add: variance_def reduce_sum_def Let_def power2_eq_square)

lemma optDH_averages:
  "getAverageSkill (players optDH) \<lparr>teamId = t, team_players = xs\<rparr> = 0"
  "getSkillVariance (players optDH) \<lparr>teamId = t, team_players = xs\<rparr> = 0"
  "getAverageAttendance (players optDH) \<lparr>teamId = t, team_players = xs\<rparr> = (if xs = [] then 0 else 1)"
  if "set xs \<subseteq> {0, 1}"
proof -
  have s: "\<And>i. i \<in> set xs \<Longrightarrow> totalScore (players optDH ! i) = 0"
    and a: "\<And>i. i \<in> set xs \<Longrightarrow> attendance (players optDH ! i) = 1"
    using that by (auto simp: optDH_simps mkPlayer_def)
  have f0: "fold (\<lambda>i acc. acc + totalScore (players optDH ! i)) ys c = c" if "set ys \<subseteq> set xs" for ys c
    using that s by (induction ys arbitrary: c) auto
  have f1: "fold (\<lambda>i acc. acc + attendance (players optDH ! i)) ys c = c + real (length ys)" if "set ys \<subseteq> set xs" for ys c
    using that a by (induction ys arbitrary: c) auto
  show g: "getAverageSkill (players optDH) \<lparr>teamId = t, team_players = xs\<rparr> = 0"
    by (simp add: getAverageSkill_def f0)
  have f2: "fold (\<lambda>b a. a + b) (map (\<lambda>i. (totalScore (players optDH ! i))\<^sup>2) ys) c = c"
    if "set ys \<subseteq> set xs" for ys and c :: real
    using that s by (induction ys arbitrary: c) auto
  show "getSkillVariance (players optDH) \<lparr>teamId = t, team_players = xs\<rparr> = 0"
    by (simp add: getSkillVariance_def g Let_def f2)
  show "getAverageAttendance (players optDH) \<lparr>teamId = t, team_players = xs\<rparr> = (if xs = [] then 0 else 1)"
    by (simp add: getAverageAttendance_def f1)
qed

lemma optDH_coach: "coachPenalty optDH teams = 0"
  by (simp add: coachPenalty_def optDH_simps mkPlayer_def)

lemma optDH_evaluate:
  "evaluate optDH [0, 0] = Inr (410005 / 2)"
  "evaluate optDH [1, 0] = Inr 202000"
  unfolding evaluate_def optDH_decode sum.case
  by (simp_all add: Let_def optDH_teamPenalty groupPenalty_def optDH_simps(7)
        sizePenalty_def sizes_20 variance_values reduce_sum_def optDH_averages optDH_coach)

lemma donorLoop_none:
  "\<forall>t \<in> set tids. \<not> eligible (teams ! t)
   \<Longrightarrow> donorLoop opt eligible teams needy pos tids ind g = (False, ind, g)"
  by (induction tids) auto

lemma optDH_fix:
  assumes "\<forall>t < length teams. set (team_players (teams ! t)) \<subseteq> {0, 1}" "pos \<noteq> ''DH''"
  shows "fixMissingPosition optDH ind teams needy pos g = (False, ind, g)"
proof -
  have c: "\<And>t p. t < length teams \<Longrightarrow> p \<noteq> ''DH'' \<Longrightarrow> getPositionCount (players optDH) (teams ! t) p = 0"
    using assms(1) optDH_counts by blast
  have 1: "\<forall>t \<in> set [0..<length teams]. \<not> firstTry (players optDH) (teams ! t) pos"
    using c assms(2) by (auto simp: firstTry_def)
  have 2: "\<forall>t \<in> set [0..<length teams]. \<not> secondTry (players optDH) (teams ! t) pos"
    using c assms(2) by (auto simp: secondTry_def)
  show ?thesis
    unfolding fixMissingPosition_def donorLoop_none[OF 1] donorLoop_none[OF 2] by simp
qed

lemma optDH_positionLoop:
  assumes "\<forall>t < length teams. set (team_players (teams ! t)) \<subseteq> {0, 1}" "''DH'' \<notin> set poss"
  shows "positionLoop optDH teams tid poss ind g = (False, ind, g)"
  using assms(2) by (induction poss) (auto simp: optDH_fix[OF assms(1)])

lemma optDH_teamLoop:
  assumes "\<forall>t < length teams. set (team_players (teams ! t)) \<subseteq> {0, 1}"
  shows "teamLoop optDH teams tids ind g = (False, ind, g)"
proof -
  have p: "\<And>tid. positionLoop optDH teams tid requiredPositions ind g = (False, ind, g)"
    by (rule optDH_positionLoop[OF assms]) (simp add: requiredPositions_def)
  show ?thesis
    by (induction tids) (simp_all add: p optDH_fix[OF assms])
qed

lemma optDH_repairPass:
  "repairPass optDH [0, 0] rng0 = Inr (Continue [1, 0] rng0)"
  "repairPass optDH [1, 0] rng0 = Inr (Leave [1, 0] rng0)"
proof -
  have m: "movePlayer optDH [0, 0] 0 1 rng0 = ([1, 0], rng0)"
    by (simp add: movePlayer_def optDH_simps rng0_draws upt_rec)
  show "repairPass optDH [0, 0] rng0 = Inr (Continue [1, 0] rng0)"
    unfolding repairPass_def optDH_decode sum.case
    by (simp add: Let_def sizes_20 balanceTeamSizes_def m[simplified])
  have c: "\<not> checkPositionsCovered (players optDH)
             [\<lparr>teamId = 0, team_players = [1]\<rparr>, \<lparr>teamId = 1, team_players = [0]\<rparr>]"
    by (simp add: checkPositionsCovered_def requiredPositions_def optDH_counts)
  have r: "repairPositions optDH [1, 0] [\<lparr>teamId = 0, team_players = [1]\<rparr>, \<lparr>teamId = 1, team_players = [0]\<rparr>] rng0
           = (False, [1, 0], rng0)"
    unfolding repairPositions_def by (rule optDH_teamLoop) (simp add: less_Suc_eq)
  show "repairPass optDH [1, 0] rng0 = Inr (Leave [1, 0] rng0)"
    unfolding repairPass_def optDH_decode sum.case
    by (simp add: Let_def sizes_20 c[simplified] r[simplified])
qed

lemma optDH_repair:
  "repairIndividual optDH [1, 0] rng0 = Inr ([1, 0], rng0, 1)"
  "repairIndividual optDH [0, 0] rng0 = Inr ([1, 0], rng0, 2)"
proof -
  have 1: "repairLoop optDH it [1, 0] rng0 = Inr ([1, 0], rng0, it + 1)" if "it < 100" for it
    using that by (subst repairLoop.simps) (simp add: maxIterations_def optDH_repairPass[simplified])
  show "repairIndividual optDH [1, 0] rng0 = Inr ([1, 0], rng0, 1)"
    using 1[of 0] by (simp add: repairIndividual_def)
  show "repairIndividual optDH [0, 0] rng0 = Inr ([1, 0], rng0, 2)"
    unfolding repairIndividual_def using 1[of 1]
    by (subst repairLoop.simps) (simp add: maxIterations_def optDH_repairPass[simplified])
qed

lemma optDH_crossover: "crossover optDH [0, 0] [0, 0] rng0 = Inr ([1, 0], [1, 0], rng0)"
  by (simp add: crossover_def rng0_draws optDH_simps optDH_repair[simplified])

lemma optDH_mutate: "mutate optDH [1, 0] rng0 = Inr ([1, 0], rng0)"
  by (simp add: mutate_def rng0_draws optDH_simps optDH_repair[simplified] mutationRate_def)

lemma optDH_create: "createIndividual optDH rng0 = ([0, 0], rng0)"
  by (simp add: createIndividual_def rng0_draws optDH_simps upt_rec numeral_2_eq_2)

lemma optDH_population: "createPopulation optDH rng0 = ([[0, 0], [0, 0]], rng0)"
  by (simp add: createPopulation_def optDH_simps optDH_create upt_rec)

lemma optDH_tournament:
  "tournamentSelection [[0, 0], [0, 0]] [410005 / 2, 410005 / 2] rng0 = Inr ([0, 0], rng0)"
  by (simp add: tournamentSelection_def rng0_draws)

lemma optDH_breed:
  "breed optDH [[0, 0], [0, 0]] [410005 / 2, 410005 / 2] [[0, 0]] rng0 = Inr ([[0, 0], [1, 0]], rng0)"
proof -
  have "breed optDH [[0, 0], [0, 0]] [410005 / 2, 410005 / 2] [[0, 0], [1, 0]] rng0
        = Inr ([[0, 0], [1, 0]], rng0)"
    by (subst breed.simps) (simp add: optDH_simps)
  then show ?thesis
    by (subst breed.simps)
       (simp add: optDH_simps optDH_tournament optDH_crossover[simplified] optDH_mutate[simplified])
qed

lemma optDH_evaluateAll:
  "evaluateAll optDH [[0, 0], [0, 0]] = Inr [410005 / 2, 410005 / 2]"
  "evaluateAll optDH [[0, 0], [1, 0]] = Inr [410005 / 2, 202000]"
  by (simp_all add: optDH_evaluate[simplified])

lemma optDH_step:
  "generationStep optDH 0
     \<lparr>population = [[0, 0], [0, 0]], best = None, events = [], evaluated = [], source = rng0\<rparr>
   = Inr \<lparr>population = [[0, 0], [1, 0]], best = Some ([0, 0], 410005 / 2),
          events = [\<lparr>generation = 0, bestFitness = 410005 / 2, avgFitness = 410005 / 2, completed = False\<rparr>],
          evaluated = [[[0, 0], [0, 0]]], source = rng0\<rparr>"
  unfolding generationStep_def
  by (simp add: optDH_evaluateAll[simplified] optDH_breed[simplified] optDH_simps reduce_sum_def Let_def
        trackBest_def)

lemma optDH_optimize:
  "optimize optDH rng0
   = Inr ([\<lparr>teamId = 0, team_players = [0, 1]\<rparr>, \<lparr>teamId = 1, team_players = []\<rparr>],
          \<lparr>population = [[0, 0], [1, 0]], best = Some ([0, 0], 410005 / 2),
           events = [\<lparr>generation = 0, bestFitness = 410005 / 2, avgFitness = 410005 / 2, completed = False\<rparr>,
                     \<lparr>generation = 1, bestFitness = 410005 / 2, avgFitness = 410005 / 2, completed = True\<rparr>],
           evaluated = [[[0, 0], [0, 0]]], source = rng0\<rparr>)"
proof -
  have 1: "optimizeLoop optDH 1 st = Inr st" for st
    by (subst optimizeLoop.simps) (simp add: optDH_simps)
  have 0: "optimizeLoop optDH 0
     \<lparr>population = [[0, 0], [0, 0]], best = None, events = [], evaluated = [], source = rng0\<rparr>
   = Inr \<lparr>population = [[0, 0], [1, 0]], best = Some ([0, 0], 410005 / 2),
          events = [\<lparr>generation = 0, bestFitness = 410005 / 2, avgFitness = 410005 / 2, completed = False\<rparr>],
          evaluated = [[[0, 0], [0, 0]]], source = rng0\<rparr>"
    by (subst optimizeLoop.simps) (simp add: optDH_simps optDH_step[simplified] 1[simplified])
  show ?thesis
    unfolding optimize_def optDH_population prod.case 0 sum.case
    by (simp add: optDH_simps optDH_decode)
qed


lemma variance_formula:
  "2 \<le> length xs \<Longrightarrow>
   variance xs = (\<Sum>x\<leftarrow>xs. (x - sum_list xs / real (length xs))\<^sup>2) / real (length xs)"
  by (simp add: variance_def reduce_sum_eq Let_def)

lemma variance_small: "length xs < 2 \<Longrightarrow> variance xs = 0"
  by (simp add: variance_def)

lemma variance_replicate: "variance (replicate n a) = 0"
proof (cases "n < 2")
  case True
  then show ?thesis by (simp add: variance_small)
next
  case False
  then have n: "2 \<le> n" by simp
  have m: "sum_list (replicate n a) / real n = a" using n by (simp add: sum_list_replicate)
  have "(\<Sum>x\<leftarrow>replicate n a. (x - a)\<^sup>2) = 0" by (simp add: sum_list_replicate)
  then show ?thesis using n by (simp add: variance_formula m)
qed

lemma variance_mset:
  assumes "mset xs = mset ys"
  shows "variance xs = variance ys"
proof -
  have l: "length xs = length ys" using assms by (rule mset_eq_length)
  have s: "sum_list xs = sum_list ys" using assms by (metis sum_mset_sum_list)
  have "mset (map f xs) = mset (map f ys)" for f :: "real \<Rightarrow> real" using assms by simp
  then have q: "sum_list (map f xs) = sum_list (map f ys)" for f :: "real \<Rightarrow> real"
    by (metis sum_mset_sum_list)
  show ?thesis
  proof (cases "length xs < 2")
    case True
    then show ?thesis using l by (simp add: variance_small)
  next
    case False
    then show ?thesis using l s q by (simp add: variance_formula)
  qed
qed

declare bits.simps [simp del]

lemma bits_0 [simp]: "bits 0 = 0"
  by (simp add: bits.simps)

lemma bits_eq_0 [simp]: "bits m = 0 \<longleftrightarrow> m = 0"
  by (simp add: bits.simps[of m])

lemma bits_pos [simp]: "0 < bits m \<longleftrightarrow> m \<noteq> 0"
  by (simp add: bits.simps[of m])

lemma bits_minus [simp]: "bits (- m) = bits m"
  by (simp add: bits.simps[of m] bits.simps[of "- m"])

lemma bits_bounds: "m \<noteq> 0 \<Longrightarrow> 2 ^ (bits m - 1) \<le> \<bar>m\<bar> \<and> \<bar>m\<bar> < 2 ^ bits m"
proof (induction m rule: bits.induct)
  case (1 m)
  show ?case
  proof (cases "\<bar>m\<bar> div 2 = 0")
    case True
    then have "\<bar>m\<bar> = 1" using "1.prems" by linarith
    then show ?thesis using True "1.prems" by (simp add: bits.simps[of m] bits.simps[of 0])
  next
    case False
    from "1.IH"[OF "1.prems" False]
    have ih: "2 ^ (bits (\<bar>m\<bar> div 2) - 1) \<le> \<bar>m\<bar> div 2" "\<bar>m\<bar> div 2 < 2 ^ bits (\<bar>m\<bar> div 2)"
      by simp_all
    have pos: "0 < bits (\<bar>m\<bar> div 2)" using False by (simp add: bits.simps[of "\<bar>m\<bar> div 2"])
    have b: "bits m = Suc (bits (\<bar>m\<bar> div 2))" using "1.prems" by (simp add: bits.simps[of m])
    have lo: "(2::int) ^ (bits m - 1) \<le> \<bar>m\<bar>"
    proof -
      have "(2::int) ^ (bits m - 1) = 2 * 2 ^ (bits (\<bar>m\<bar> div 2) - 1)"
        using b pos by (cases "bits (\<bar>m\<bar> div 2)") simp_all
      also have "\<dots> \<le> 2 * (\<bar>m\<bar> div 2)" using ih(1) by simp
      also have "\<dots> \<le> \<bar>m\<bar>" by simp
      finally show ?thesis .
    qed
    have hi: "\<bar>m\<bar> < 2 ^ bits m"
    proof -
      have "\<bar>m\<bar> div 2 + 1 \<le> 2 ^ bits (\<bar>m\<bar> div 2)" using ih(2) by simp
      then have "2 * (\<bar>m\<bar> div 2) + 2 \<le> 2 * 2 ^ bits (\<bar>m\<bar> div 2)" by simp
      moreover have "\<bar>m\<bar> < 2 * (\<bar>m\<bar> div 2) + 2" by linarith
      ultimately show ?thesis using b by simp
    qed
    show ?thesis using lo hi by simp
  qed
qed

lemma bits_bounds2:
  assumes "m \<noteq> 0"
  shows "2 ^ bits m \<le> 2 * \<bar>m\<bar>" "\<bar>m\<bar> < 2 ^ bits m"
proof -
  have "0 < bits m" using assms by simp
  then have "(2::int) ^ bits m = 2 * 2 ^ (bits m - 1)" by (cases "bits m") simp_all
  then show "2 ^ bits m \<le> 2 * \<bar>m\<bar>" using bits_bounds[OF assms] by simp
  show "\<bar>m\<bar> < 2 ^ bits m" using bits_bounds[OF assms] by simp
qed

lemma bits_unique:
  assumes "2 ^ b \<le> 2 * \<bar>m\<bar>" "\<bar>m\<bar> < 2 ^ b"
  shows "bits m = b"
proof -
  have m: "m \<noteq> 0" using assms(1) by auto
  note bb = bits_bounds2[OF m]
  have "\<not> bits m < b"
  proof
    assume "bits m < b"
    then have "Suc (bits m) \<le> b" by simp
    then have "(2::int) ^ Suc (bits m) \<le> 2 ^ b" by (rule power_increasing) simp
    then show False using assms(1) bb by simp
  qed
  moreover have "\<not> b < bits m"
  proof
    assume "b < bits m"
    then have "Suc b \<le> bits m" by simp
    then have "(2::int) ^ Suc b \<le> 2 ^ bits m" by (rule power_increasing) simp
    then show False using assms(2) bb by simp
  qed
  ultimately show ?thesis by simp
qed

lemma bits_shift: "m \<noteq> 0 \<Longrightarrow> bits (m * 2 ^ j) = bits m + j"
proof (rule bits_unique)
  assume m: "m \<noteq> 0"
  note bb = bits_bounds2[OF m]
  have a: "\<bar>m * 2 ^ j\<bar> = \<bar>m\<bar> * 2 ^ j" by (simp add: abs_mult)
  have "(2::int) ^ (bits m + j) = 2 ^ bits m * 2 ^ j" by (simp add: power_add)
  also have "\<dots> \<le> (2 * \<bar>m\<bar>) * 2 ^ j" using bb(1) by (rule mult_right_mono) simp
  finally show "2 ^ (bits m + j) \<le> 2 * \<bar>m * 2 ^ j\<bar>" by (simp add: a)
  have "\<bar>m\<bar> * 2 ^ j < 2 ^ bits m * 2 ^ j" using bb(2) by (rule mult_strict_right_mono) simp
  then show "\<bar>m * 2 ^ j\<bar> < 2 ^ (bits m + j)" by (simp add: a power_add)
qed

lemma nearest_even_zero [simp]: "nearest_even 0 k = 0"
  by (simp add: nearest_even_def)

lemma nearest_even_error:
  assumes "0 < k"
  shows "2 * \<bar>nearest_even m k * 2 ^ k - m\<bar> \<le> 2 ^ k"
proof -
  define q where "q = m div 2 ^ k"
  define r where "r = m mod 2 ^ k"
  define h :: int where "h = 2 ^ (k - 1)"
  have hk: "2 * h = 2 ^ k" using assms by (cases k) (simp_all add: h_def)
  have m: "m = q * 2 ^ k + r" unfolding q_def r_def by (rule div_mult_mod_eq[symmetric])
  have r: "0 \<le> r" "r < 2 ^ k" by (simp_all add: r_def)
  define m' where "m' = (if r < h then q else if h < r then q + 1 else if even q then q else q + 1)"
  have res: "nearest_even m k = m'"
    by (simp add: nearest_even_def Let_def q_def r_def h_def m'_def)
  have "m' = q \<and> r \<le> h \<or> m' = q + 1 \<and> h \<le> r" by (auto simp: m'_def)
  then have "\<bar>m' * 2 ^ k - m\<bar> \<le> h"
  proof
    assume "m' = q \<and> r \<le> h"
    then show ?thesis using m r by simp
  next
    assume a: "m' = q + 1 \<and> h \<le> r"
    then have "m' * 2 ^ k - m = 2 ^ k - r" using m by (simp add: algebra_simps)
    then show ?thesis using a r hk by simp
  qed
  then show ?thesis unfolding res using hk by simp
qed

lemma nearest_even_exact:
  assumes "0 < k" "k \<le> j"
  shows "nearest_even (m * 2 ^ j) k = m * 2 ^ (j - k)"
proof -
  have p: "m * 2 ^ j = (m * 2 ^ (j - k)) * 2 ^ k"
    using assms(2) by (simp add: power_add[symmetric])
  have d: "(m * 2 ^ j) div 2 ^ k = m * 2 ^ (j - k)" unfolding p by simp
  have r: "(m * 2 ^ j) mod 2 ^ k = 0" unfolding p by simp
  show ?thesis by (simp add: nearest_even_def d r)
qed

lemma nearest_even_shift:
  assumes "0 < k"
  shows "nearest_even (m * 2 ^ j) (k + j) = nearest_even m k"
proof -
  have d: "(m * 2 ^ j) div 2 ^ (k + j) = m div 2 ^ k"
    by (simp add: power_add)
  have r: "(m * 2 ^ j) mod 2 ^ (k + j) = (m mod 2 ^ k) * 2 ^ j"
    by (simp add: power_add mult_mod_left)
  have h: "(2::int) ^ (k + j - 1) = 2 ^ (k - 1) * 2 ^ j"
    using assms by (simp add: power_add[symmetric])
  have c1: "(m mod 2 ^ k) * 2 ^ j < 2 ^ (k - 1) * 2 ^ j \<longleftrightarrow> m mod 2 ^ k < 2 ^ (k - 1)"
    by simp
  have c2: "2 ^ (k - 1) * 2 ^ j < (m mod 2 ^ k) * 2 ^ j \<longleftrightarrow> (2::int) ^ (k - 1) < m mod 2 ^ k"
    by simp
  show ?thesis
    unfolding nearest_even_def Let_def d r h c1 c2 ..
qed

lemma is_double_simps [simp]: "is_double PosInf" "is_double NegInf" "is_double NaN" "is_double dzero"
  by (simp_all add: is_double_def dzero_def)

lemma pack_zero [simp]: "pack 0 q = dzero"
  by (simp add: pack_def)

lemma round_double_zero [simp]: "round_double 0 e = dzero"
  by (simp add: round_double_def Let_def)

lemma abs_less_of_bits:
  assumes "m \<noteq> 0" "bits m \<le> n"
  shows "\<bar>m\<bar> < 2 ^ n"
proof -
  have "\<bar>m\<bar> < 2 ^ bits m" using bits_bounds2(2)[OF assms(1)] .
  also have "(2::int) ^ bits m \<le> 2 ^ n" using assms(2) by (rule power_increasing) simp
  finally show ?thesis .
qed

lemma pack_plain:
  assumes "m \<noteq> 0" "\<bar>m\<bar> < 2 ^ 53" "q \<le> 971"
  shows "pack m q = Double m q"
  using assms by (simp add: pack_def)

lemma round_double_id:
  assumes "is_double (Double m e)"
  shows "round_double m e = Double m e"
proof (cases "m = 0")
  case True
  then show ?thesis using assms by (simp add: is_double_def dzero_def)
next
  case False
  from assms False have e: "e \<le> 971" and q: "e = max (e + int (bits m) - 53) (- 1074)"
    by (simp_all add: is_double_def)
  have "bits m \<le> 53" using q by linarith
  then have lt: "\<bar>m\<bar> < 2 ^ 53" by (rule abs_less_of_bits[OF False])
  have "round_double m e = pack m e"
    unfolding round_double_def Let_def q[symmetric] by simp
  then show ?thesis using pack_plain[OF False lt e] by simp
qed

lemma round_double_shift: "round_double (m * 2 ^ j) e = round_double m (e + int j)"
proof (cases "m = 0")
  case True
  then show ?thesis by simp
next
  case False
  define q where "q = max (e + int j + int (bits m) - 53) (- 1074)"
  have b: "bits (m * 2 ^ j) = bits m + j" using False by (rule bits_shift)
  have ql: "max (e + int (bits (m * 2 ^ j)) - 53) (- 1074) = q"
    unfolding b q_def by (simp add: algebra_simps)
  have qr: "max (e + int j + int (bits m) - 53) (- 1074) = q"
    unfolding q_def ..
  have m1: "(if q \<le> e then m * 2 ^ j * 2 ^ nat (e - q) else nearest_even (m * 2 ^ j) (nat (q - e)))
            = (if q \<le> e + int j then m * 2 ^ nat (e + int j - q) else nearest_even m (nat (q - (e + int j))))"
  proof -
    consider "q \<le> e" | "e < q" "q \<le> e + int j" | "e + int j < q" by linarith
    then show ?thesis
    proof cases
      case 1
      then have "nat (e + int j - q) = j + nat (e - q)" by simp
      then show ?thesis using 1 by (simp add: power_add)
    next
      case 2
      define k where "k = nat (q - e)"
      have k: "0 < k" "k \<le> j" using 2 by (simp_all add: k_def)
      have "nat (e + int j - q) = j - k" using 2 by (simp add: k_def)
      then show ?thesis using 2 nearest_even_exact[OF k, of m] by (simp add: k_def)
    next
      case 3
      define k where "k = nat (q - (e + int j))"
      have k: "0 < k" using 3 by (simp add: k_def)
      have "nat (q - e) = k + j" using 3 by (simp add: k_def)
      then show ?thesis using 3 nearest_even_shift[OF k, of m j] by (simp add: k_def)
    qed
  qed
  show ?thesis
    unfolding round_double_def Let_def ql qr m1 ..
qed

lemma pack_is_double:
  assumes "\<bar>m\<bar> \<le> 2 ^ 53" "- 1074 \<le> q" "q \<noteq> - 1074 \<Longrightarrow> 2 ^ 52 \<le> \<bar>m\<bar>"
  shows "is_double (pack m q)"
proof (cases "\<bar>m\<bar> = 2 ^ 53")
  case True
  then have d: "\<bar>m div 2\<bar> = 2 ^ 52" by (cases "0 \<le> m") simp_all
  then have nz: "m div 2 \<noteq> 0" by auto
  have b: "bits (m div 2) = 53" by (rule bits_unique) (simp_all add: d)
  have "pack m q = (if 971 < q + 1 then (if 0 < m div 2 then PosInf else NegInf) else Double (m div 2) (q + 1))"
    using True nz by (simp add: pack_def)
  then show ?thesis using assms(2) nz b by (simp add: is_double_def)
next
  case False
  then have lt: "\<bar>m\<bar> < 2 ^ 53" using assms(1) by simp
  show ?thesis
  proof (cases "m = 0")
    case True
    then show ?thesis by (simp add: is_double_def dzero_def)
  next
    case nz: False
    have b53: "bits m \<le> 53"
    proof (rule ccontr)
      assume "\<not> bits m \<le> 53"
      then have "54 \<le> bits m" by simp
      then have "(2::int) ^ 54 \<le> 2 ^ bits m" by (rule power_increasing) simp
      then show False using bits_bounds2(1)[OF nz] lt by simp
    qed
    have be: "q = max (q + int (bits m) - 53) (- 1074)"
    proof (cases "q = - 1074")
      case True
      then show ?thesis using b53 by simp
    next
      case False
      then have "2 ^ 52 \<le> \<bar>m\<bar>" by (rule assms(3))
      then have "bits m = 53" using lt by (intro bits_unique) simp_all
      then show ?thesis using assms(2) by simp
    qed
    have "pack m q = (if 971 < q then (if 0 < m then PosInf else NegInf) else Double m q)"
      using \<open>\<bar>m\<bar> \<noteq> 2 ^ 53\<close> nz by (simp add: pack_def)
    then show ?thesis using nz be by (simp add: is_double_def)
  qed
qed

lemma round_double_is_double: "is_double (round_double m e)"
proof (cases "m = 0")
  case True
  then show ?thesis by (simp add: is_double_def dzero_def)
next
  case nz: False
  define b where "b = bits m"
  define q where "q = max (e + int b - 53) (- 1074)"
  define m1 where "m1 = (if q \<le> e then m * 2 ^ nat (e - q) else nearest_even m (nat (q - e)))"
  have rd: "round_double m e = pack m1 q"
    by (simp add: round_double_def Let_def m1_def q_def b_def)
  note bb = bits_bounds2[OF nz, folded b_def]
  have q1: "- 1074 \<le> q" by (simp add: q_def)
  have q2: "e + int b - 53 \<le> q" by (simp add: q_def)
  have q3: "q = e + int b - 53" if "q \<noteq> - 1074" using that by (simp add: q_def max_def split: if_splits)
  have "\<bar>m1\<bar> \<le> 2 ^ 53 \<and> (q \<noteq> - 1074 \<longrightarrow> 2 ^ 52 \<le> \<bar>m1\<bar>)"
  proof (cases "q \<le> e")
    case True
    then have m1: "m1 = m * 2 ^ nat (e - q)" by (simp add: m1_def)
    have bm: "bits m1 = b + nat (e - q)" unfolding m1 b_def using nz by (rule bits_shift)
    have m1nz: "m1 \<noteq> 0" using nz by (simp add: m1)
    have "bits m1 \<le> 53" using bm q2 True by simp
    then have "\<bar>m1\<bar> < 2 ^ 53" by (rule abs_less_of_bits[OF m1nz])
    moreover have "2 ^ 52 \<le> \<bar>m1\<bar>" if "q \<noteq> - 1074"
    proof -
      have "bits m1 = 53" using bm q3[OF that] True by simp
      then show ?thesis using bits_bounds2(1)[OF m1nz] by simp
    qed
    ultimately show ?thesis by simp
  next
    case False
    define k where "k = nat (q - e)"
    have k: "0 < k" using False by (simp add: k_def)
    have m1: "m1 = nearest_even m k" using False by (simp add: m1_def k_def)
    define P :: int where "P = 2 ^ k"
    have P: "0 < P" by (simp add: P_def)
    have err: "2 * \<bar>m1 * P - m\<bar> \<le> P" unfolding m1 P_def using k by (rule nearest_even_error)
    have am: "\<bar>m1 * P\<bar> = \<bar>m1\<bar> * P" using P by (simp add: abs_mult)
    define D where "D = \<bar>m1 * P - m\<bar>"
    define X where "X = \<bar>m1\<bar> * P"
    define M where "M = \<bar>m\<bar>"
    have t1: "X \<le> M + D" unfolding X_def M_def D_def am[symmetric] by linarith
    have t2: "M \<le> X + D" unfolding X_def M_def D_def am[symmetric] by linarith
    have "2 * X \<le> 2 * M + P" using err[folded D_def] t1 by linarith
    then have up: "2 * (\<bar>m1\<bar> * P) \<le> 2 * \<bar>m\<bar> + P" by (simp only: X_def M_def)
    have "2 * M \<le> 2 * X + P" using err[folded D_def] t2 by linarith
    then have lo: "2 * \<bar>m\<bar> \<le> 2 * (\<bar>m1\<bar> * P) + P" by (simp only: X_def M_def)
    have "b \<le> 53 + k" using q2 False by (simp add: k_def)
    then have "(2::int) ^ b \<le> 2 ^ (53 + k)" by (rule power_increasing) simp
    then have bl: "(2::int) ^ b \<le> 2 ^ 53 * P" by (simp add: power_add P_def)
    have "2 * (\<bar>m1\<bar> * P) < (2 ^ 54 + 1) * P" using up bb(2) bl by (simp add: algebra_simps)
    then have "(2 * \<bar>m1\<bar>) * P < (2 ^ 54 + 1) * P" by (simp add: algebra_simps)
    then have "2 * \<bar>m1\<bar> < 2 ^ 54 + 1" using P by (simp only: mult_less_cancel_right_pos)
    then have i: "\<bar>m1\<bar> \<le> 2 ^ 53" by simp
    have "2 ^ 52 \<le> \<bar>m1\<bar>" if "q \<noteq> - 1074"
    proof -
      have "b = 53 + k" using q3[OF that] False by (simp add: k_def)
      then have "(2::int) ^ b = 2 ^ 53 * P" by (simp add: power_add P_def)
      then have "2 ^ 53 * P \<le> (2 * \<bar>m1\<bar> + 1) * P" using lo bb(1) by (simp add: algebra_simps)
      then have "2 ^ 53 \<le> 2 * \<bar>m1\<bar> + 1" using P by (simp only: mult_le_cancel_right_pos)
      then show ?thesis by simp
    qed
    then show ?thesis using i by simp
  qed
  then show ?thesis unfolding rd using q1 by (intro pack_is_double) simp_all
qed

lemma dadd_commute: "dadd x y = dadd y x"
  by (cases x; cases y) (simp_all add: dadd_def min.commute add.commute)

lemma dadd_zero_left:
  assumes "is_double x"
  shows "dadd dzero x = x"
proof (cases x)
  case (Double m e)
  have "dadd dzero x = round_double m e"
  proof (cases "e \<le> 0")
    case True
    then show ?thesis by (simp add: dadd_def dzero_def Double min_def)
  next
    case False
    then have "dadd dzero x = round_double (m * 2 ^ nat e) 0"
      by (simp add: dadd_def dzero_def Double min_def)
    also have "\<dots> = round_double m e" using False by (simp add: round_double_shift)
    finally show ?thesis .
  qed
  then show ?thesis using assms round_double_id by (simp add: Double)
qed (simp_all add: dadd_def dzero_def)

lemma dsquare_is_double: "is_double (dsquare x)"
  by (cases x) (simp_all add: dsquare_def round_double_is_double)

lemma variance_double_pair:
  "variance_double [x, y]
   = ddiv_count (reduce_dsum [dsquare (dsub x (ddiv_count (reduce_dsum [x, y]) 2)),
                              dsquare (dsub y (ddiv_count (reduce_dsum [x, y]) 2))]) 2"
  by (simp add: variance_double_def Let_def numeral_2_eq_2)

lemma variance_double_swap:
  assumes "is_double a" "is_double b"
  shows "variance_double [a, b] = variance_double [b, a]"
proof -
  define mean where "mean = ddiv_count (dadd a b) 2"
  have s1: "reduce_dsum [a, b] = dadd a b"
    by (simp add: reduce_dsum_def dadd_zero_left[OF assms(1)])
  have s2: "reduce_dsum [b, a] = dadd a b"
    by (simp add: reduce_dsum_def dadd_zero_left[OF assms(2)] dadd_commute[of b a])
  have q: "reduce_dsum [dsquare x, dsquare y] = dadd (dsquare x) (dsquare y)" for x y
    by (simp add: reduce_dsum_def dadd_zero_left[OF dsquare_is_double])
  have "variance_double [a, b] = ddiv_count (dadd (dsquare (dsub a mean)) (dsquare (dsub b mean))) 2"
    unfolding variance_double_pair s1 q mean_def ..
  moreover have "variance_double [b, a] = ddiv_count (dadd (dsquare (dsub b mean)) (dsquare (dsub a mean))) 2"
    unfolding variance_double_pair s2 q mean_def ..
  ultimately show ?thesis by (simp add: dadd_commute[of "dsquare (dsub a mean)"])
qed

lemma bits_2: "bits 2 = 2"
  by (simp add: bits.simps[of 2] bits.simps[of 1])

lemma ddiv_count_2: "ddiv_count (Double m e) 2 = round_double m (e - 1)"
proof -
  have d: "(m * 2 ^ 66) div 2 = m * 2 ^ 65" by simp
  have r: "(m * 2 ^ 66) mod 2 = 0" by simp
  have "ddiv_count (Double m e) 2 = round_double (m * 2 ^ 66) (e - 67)"
    unfolding ddiv_count_def by (simp add: bits_2 Let_def mult.commute)
  also have "\<dots> = round_double m (e - 1)" using round_double_shift[of m 66 "e - 67"] by simp
  finally show ?thesis .
qed

lemma dadd_self:
  assumes "is_double (Double m e)" "is_finite (dadd (Double m e) (Double m e))"
  shows "ddiv_count (dadd (Double m e) (Double m e)) 2 = Double m e"
proof (cases "m = 0")
  case True
  then show ?thesis using assms(1) by (simp add: dadd_def is_double_def ddiv_count_2 dzero_def)
next
  case nz: False
  from assms(1) nz have e: "e \<le> 971" and q: "e = max (e + int (bits m) - 53) (- 1074)"
    by (simp_all add: is_double_def)
  have b53: "bits m \<le> 53" using q by linarith
  have s: "dadd (Double m e) (Double m e) = round_double m (e + 1)"
  proof -
    have "dadd (Double m e) (Double m e) = round_double (m * 2 ^ 1) e"
      by (simp add: dadd_def mult.commute)
    then show ?thesis by (simp only: round_double_shift) simp
  qed
  show ?thesis
  proof (cases "bits m = 53")
    case True
    have lt: "\<bar>m\<bar> < 2 ^ 53" using abs_less_of_bits[OF nz b53] .
    have "round_double m (e + 1) = pack m (e + 1)"
      using True q by (simp add: round_double_def Let_def add.commute)
    also have "\<dots> = (if 971 < e + 1 then (if 0 < m then PosInf else NegInf) else Double m (e + 1))"
      using nz lt by (simp add: pack_def)
    finally have r: "round_double m (e + 1) = (if 971 < e + 1 then (if 0 < m then PosInf else NegInf) else Double m (e + 1))" .
    have "\<not> 971 < e + 1" using assms(2) unfolding s r by (auto simp: is_finite_def split: if_splits)
    then have "dadd (Double m e) (Double m e) = Double m (e + 1)" unfolding s r by simp
    then show ?thesis using round_double_id[OF assms(1)] by (simp add: ddiv_count_2)
  next
    case False
    then have b52: "bits m \<le> 52" using b53 by simp
    then have e': "e = - 1074" using q by linarith
    have lt: "\<bar>m\<bar> < 2 ^ 52" using abs_less_of_bits[OF nz b52] .
    have "round_double m (e + 1) = pack (m * 2) e"
      using b52 by (simp add: round_double_def Let_def e')
    also have "\<dots> = Double (m * 2) e" using nz lt e by (intro pack_plain) simp_all
    finally have "dadd (Double m e) (Double m e) = Double (m * 2 ^ 1) e" unfolding s by simp
    then have "ddiv_count (dadd (Double m e) (Double m e)) 2 = round_double (m * 2 ^ 1) (e - 1)"
      by (simp only: ddiv_count_2)
    also have "\<dots> = round_double m e" by (simp only: round_double_shift) simp
    finally show ?thesis using round_double_id[OF assms(1)] by simp
  qed
qed

lemma variance_double_pair_const:
  assumes "is_double a" "is_finite (dadd a a)"
  shows "variance_double [a, a] = dzero"
proof (cases a)
  case (Double m e)
  have mean: "ddiv_count (dadd a a) 2 = a" using assms dadd_self[of m e] by (simp add: Double)
  have s: "reduce_dsum [a, a] = dadd a a"
    by (simp add: reduce_dsum_def dadd_zero_left[OF assms(1)])
  have d: "dsub a a = dzero" by (simp add: Double dsub_def dneg_def dadd_def)
  have z: "dsquare dzero = dzero" by (simp add: dsquare_def dzero_def)
  have zz: "reduce_dsum [dzero, dzero] = dzero" by (simp add: reduce_dsum_def dadd_def dzero_def)
  have dz: "ddiv_count dzero 2 = dzero" by (simp add: dzero_def ddiv_count_2)
  show ?thesis unfolding variance_double_pair s mean d z zz dz ..
next
  case PosInf
  then show ?thesis using assms(2) by (simp add: dadd_def is_finite_def)
next
  case NegInf
  then show ?thesis using assms(2) by (simp add: dadd_def is_finite_def)
next
  case NaN
  then show ?thesis using assms(2) by (simp add: dadd_def is_finite_def)
qed

lemma pow2_shift:
  fixes a b :: int
  assumes "b \<le> a"
  shows "(2::real) ^ nat (a - b) * 2 powi b = 2 powi a"
proof -
  have "(2::real) ^ nat (a - b) = 2 powi int (nat (a - b))" by (simp only: power_int_of_nat)
  also have "int (nat (a - b)) = a - b" using assms by simp
  finally have "(2::real) ^ nat (a - b) * 2 powi b = 2 powi (a - b) * 2 powi b" by simp
  also have "\<dots> = 2 powi (a - b + b)" by (subst power_int_add) simp_all
  finally show ?thesis by simp
qed

lemma pack_value:
  assumes "pack m q = Double m' q'"
  shows "real_of_int m' * 2 powi q' = real_of_int m * 2 powi q"
proof (cases "\<bar>m\<bar> = 2 ^ 53")
  case True
  then have "m = 2 ^ 53 \<or> m = - (2 ^ 53)" by linarith
  then have nz: "m div 2 \<noteq> 0" and ev: "m = 2 * (m div 2)" by auto
  from assms True nz have "m' = m div 2" "q' = q + 1"
    by (simp_all add: pack_def Let_def split: if_splits)
  then have "real_of_int m' * 2 powi q' = real_of_int (m div 2) * (2 powi q * 2)"
    by (simp add: power_int_add)
  also have "\<dots> = real_of_int (2 * (m div 2)) * 2 powi q" by simp
  finally show ?thesis using ev by simp
next
  case False
  show ?thesis
  proof (cases "m = 0")
    case True
    then show ?thesis using assms by (simp add: dzero_def)
  next
    case nz: False
    from assms False nz have "m' = m" "q' = q"
      by (simp_all add: pack_def Let_def split: if_splits)
    then show ?thesis by simp
  qed
qed

lemma round_double_nearest:
  assumes "round_double m e = Double m' e'"
  shows "2 * \<bar>real_of_int m' * 2 powi e' - real_of_int m * 2 powi e\<bar>
         \<le> 2 powi (max (e + int (bits m) - 53) (- 1074))"
proof -
  define q where "q = max (e + int (bits m) - 53) (- 1074)"
  define m1 where "m1 = (if q \<le> e then m * 2 ^ nat (e - q) else nearest_even m (nat (q - e)))"
  have rd: "round_double m e = pack m1 q"
    by (simp add: round_double_def Let_def m1_def q_def)
  have v: "real_of_int m' * 2 powi e' = real_of_int m1 * 2 powi q"
    using assms unfolding rd by (rule pack_value)
  show ?thesis
  proof (cases "q \<le> e")
    case True
    then have "real_of_int m1 * 2 powi q = real_of_int m * (2 ^ nat (e - q) * 2 powi q)"
      by (simp add: m1_def)
    also have "\<dots> = real_of_int m * 2 powi e" using True by (simp only: pow2_shift)
    finally show ?thesis unfolding v q_def[symmetric] by simp
  next
    case False
    define k where "k = nat (q - e)"
    have k: "0 < k" using False by (simp add: k_def)
    have m1: "m1 = nearest_even m k" using False by (simp add: m1_def k_def)
    have err: "2 * \<bar>m1 * 2 ^ k - m\<bar> \<le> 2 ^ k" unfolding m1 using k by (rule nearest_even_error)
    have pq: "(2::real) ^ k * 2 powi e = 2 powi q" using False pow2_shift[of e q] by (simp add: k_def)
    have "real_of_int m1 * 2 powi q - real_of_int m * 2 powi e
          = real_of_int (m1 * 2 ^ k - m) * 2 powi e"
      unfolding pq[symmetric] by (simp add: algebra_simps)
    then have "2 * \<bar>real_of_int m1 * 2 powi q - real_of_int m * 2 powi e\<bar>
          = real_of_int (2 * \<bar>m1 * 2 ^ k - m\<bar>) * 2 powi e"
      by (simp add: abs_mult)
    also have "\<dots> \<le> real_of_int (2 ^ k) * 2 powi e"
    proof (rule mult_right_mono)
      show "real_of_int (2 * \<bar>m1 * 2 ^ k - m\<bar>) \<le> real_of_int (2 ^ k)" using err by (simp only: of_int_le_iff)
      show "(0::real) \<le> 2 powi e" by simp
    qed
    also have "\<dots> = 2 powi q" using pq by simp
    finally show ?thesis unfolding v q_def[symmetric] .
  qed
qed

lemma dadd_finite:
  "dadd (Double a ea) (Double b eb)
   = round_double (a * 2 ^ nat (ea - min ea eb) + b * 2 ^ nat (eb - min ea eb)) (min ea eb)
   \<and> real_of_int (a * 2 ^ nat (ea - min ea eb) + b * 2 ^ nat (eb - min ea eb)) * 2 powi (min ea eb)
       = real_of_int a * 2 powi ea + real_of_int b * 2 powi eb"
proof -
  have px: "(2::real) powi min ea eb * 2 ^ nat (ea - min ea eb) = 2 powi ea"
    using pow2_shift[of "min ea eb" ea] by (simp add: mult.commute)
  have py: "(2::real) powi min ea eb * 2 ^ nat (eb - min ea eb) = 2 powi eb"
    using pow2_shift[of "min ea eb" eb] by (simp add: mult.commute)
  show ?thesis
    by (simp add: dadd_def Let_def algebra_simps px py)
qed

lemma dsquare_finite:
  "dsquare (Double m e) = round_double (m * m) (2 * e)
   \<and> real_of_int (m * m) * 2 powi (2 * e) = (real_of_int m * 2 powi e)\<^sup>2"
proof -
  have "(2::real) powi (2 * e) = 2 powi e * 2 powi e"
    using power_int_add[of "2::real" e e] by simp
  then show ?thesis by (simp add: dsquare_def power2_eq_square)
qed

lemma variance_double_formula:
  "2 \<le> length ds \<Longrightarrow>
   variance_double ds
   = ddiv_count (reduce_dsum (map (\<lambda>v. dsquare (dsub v (ddiv_count (reduce_dsum ds) (length ds)))) ds))
       (length ds)"
  by (simp add: variance_double_def Let_def)

lemma variance_double_small: "variance_double [] = dzero" "variance_double [d] = dzero"
  by (simp_all add: variance_double_def)

lemma double_constants:
  "tenth = Double 7205759403792794 (- 56)" "fifth = Double 7205759403792794 (- 55)"
  "is_double tenth" "is_double fifth" "is_double double_one" "is_double double_two"
  "is_double double_six" "is_double d1e308" "is_double tiny"
  by code_simp+

lemma double_constants_value:
  "dval double_one = Some 1" "dval double_two = Some 2" "dval double_six = Some 6"
  "dval tiny = Some (2 powi (- 1074))"
  by (simp_all add: dval_def double_one_def double_two_def double_six_def tiny_def power_int_minus)

lemma dadd_special:
  "dadd PosInf PosInf = PosInf" "dadd NegInf NegInf = NegInf"
  "dadd PosInf NegInf = NaN" "dadd NegInf PosInf = NaN"
  "dadd NaN x = NaN" "dadd x NaN = NaN"
  "dadd (Double m e) PosInf = PosInf" "dadd PosInf (Double m e) = PosInf"
  "dadd (Double m e) NegInf = NegInf" "dadd NegInf (Double m e) = NegInf"
  by (cases x; simp add: dadd_def)+

lemma variance_double_is_double: "is_double (variance_double ds)"
proof -
  have "is_double (ddiv_count x n)" for x n
    by (cases x) (simp_all add: ddiv_count_def Let_def round_double_is_double)
  then show ?thesis by (simp add: variance_double_def Let_def)
qed

lemma reduce_dsum_pair: "is_double a \<Longrightarrow> reduce_dsum [a, b] = dadd a b"
  by (simp add: reduce_dsum_def dadd_zero_left)

text \<open>
  Overflow and underflow: twice \<open>1e308\<close> is \<open>Infinity\<close>, so the variance of
  \<open>[1e308, 1e308]\<close> is \<open>Infinity\<close>; half of \<open>5e-324\<close> and its square are 0, so the variance
  of \<open>[5e-324, 0]\<close> is 0.
\<close>

lemma variance_double_overflow: "variance_double [d1e308, d1e308] = PosInf"
proof -
  have 1: "dadd d1e308 d1e308 = PosInf" by code_simp
  have 2: "ddiv_count PosInf 2 = PosInf" by code_simp
  have 3: "dsub d1e308 PosInf = NegInf" by code_simp
  have 4: "dsquare NegInf = PosInf" by code_simp
  show ?thesis
    unfolding variance_double_pair reduce_dsum_pair[OF double_constants(8)] 1 2 3 4
      reduce_dsum_pair[OF is_double_simps(1)] dadd_special(1) ..
qed

lemma variance_double_underflow: "variance_double [tiny, dzero] = dzero"
proof -
  have 1: "dadd tiny dzero = tiny" by code_simp
  have 2: "ddiv_count tiny 2 = dzero" by code_simp
  have 3: "dsub tiny dzero = tiny" by code_simp
  have 4: "dsquare tiny = dzero" by code_simp
  have 5: "dsub dzero dzero = dzero" by code_simp
  have 6: "dsquare dzero = dzero" by code_simp
  have 7: "dadd dzero dzero = dzero" by code_simp
  have 8: "ddiv_count dzero 2 = dzero" by code_simp
  show ?thesis
    unfolding variance_double_pair reduce_dsum_pair[OF double_constants(9)] 1 2 3 4 5 6
      reduce_dsum_pair[OF is_double_simps(4)] 7 8 ..
qed

text \<open>
  Where the exact variance is not a double the result is rounded: the variance of
  \<open>[1, 2, 6]\<close> is \<open>14 / 3\<close> in exact arithmetic and \<open>4.666666666666667\<close> in doubles.
\<close>

lemma variance_double_rounds:
  "variance_double [double_one, double_two, double_six] = Double 5254199565265579 (- 50)"
  by code_simp

section \<open>The claims\<close>

text \<open>
  Claim C1.  Every individual produced by \<open>createIndividual\<close> satisfies the grouping
  invariant (all members of each co-assign group are mapped to the same team), and for
  every valid individual that satisfies it the results of \<open>mutate\<close>, both offspring of
  \<open>crossover\<close> and the result of the repair step itself satisfy it again; none of them
  throws on such an input.  The random source is arbitrary, with values in \<open>[0, 1)\<close>.
\<close>

theorem grouping_invariant:
  "grouped opt (fst (createIndividual opt g))
   \<and> (valid_individual opt ind \<and> grouped opt ind \<and> unit_rng g \<longrightarrow>
        (\<exists>ind' g'. mutate opt ind g = Inr (ind', g') \<and> grouped opt ind'))
   \<and> (valid_individual opt ind \<and> grouped opt ind \<and> valid_individual opt ind2 \<and> grouped opt ind2
        \<and> unit_rng g \<longrightarrow>
        (\<exists>offspring1 offspring2 g'. crossover opt ind ind2 g = Inr (offspring1, offspring2, g')
            \<and> grouped opt offspring1 \<and> grouped opt offspring2))
   \<and> (valid_individual opt ind \<and> grouped opt ind \<and> unit_rng g \<longrightarrow>
        (\<exists>ind' g' passes. repairIndividual opt ind g = Inr (ind', g', passes) \<and> grouped opt ind'))"
proof (intro conjI impI)
  show "grouped opt (fst (createIndividual opt g))" by (rule createIndividual_grouped)
next
  assume a: "valid_individual opt ind \<and> grouped opt ind \<and> unit_rng g"
  then have l: "length ind = numPlayers opt" by (simp add: valid_individual_def)
  from a mutate_ok[of opt ind g] obtain ind' g' where
    "mutate opt ind g = Inr (ind', g')" "moves opt (team_ok opt) ind ind'" by blast
  then show "\<exists>ind' g'. mutate opt ind g = Inr (ind', g') \<and> grouped opt ind'"
    using moves_grouped[OF _ l] a by blast
next
  assume a: "valid_individual opt ind \<and> grouped opt ind \<and> valid_individual opt ind2 \<and> grouped opt ind2 \<and> unit_rng g"
  then have l: "length ind = numPlayers opt" "length ind2 = numPlayers opt" by (simp_all add: valid_individual_def)
  from a crossover_ok[of opt ind ind2 g] obtain o1 o2 g' where
    "crossover opt ind ind2 g = Inr (o1, o2, g')" "moves opt (team_ok opt) ind o1" "moves opt (team_ok opt) ind2 o2"
    by blast
  then show "\<exists>offspring1 offspring2 g'. crossover opt ind ind2 g = Inr (offspring1, offspring2, g')
            \<and> grouped opt offspring1 \<and> grouped opt offspring2"
    using moves_grouped[OF _ l(1)] moves_grouped[OF _ l(2)] a by blast
next
  assume a: "valid_individual opt ind \<and> grouped opt ind \<and> unit_rng g"
  then have l: "length ind = numPlayers opt" by (simp add: valid_individual_def)
  from a repairIndividual_ok[of opt ind g] obtain ind' g' n where
    "repairIndividual opt ind g = Inr (ind', g', n)" "moves opt (team_ok opt) ind ind'" by blast
  then show "\<exists>ind' g' passes. repairIndividual opt ind g = Inr (ind', g', passes) \<and> grouped opt ind'"
    using moves_grouped[OF _ l] a by blast
qed

theorem grouping_invariant_witness:
  "valid_individual opt3 [0, 0, 1] \<and> grouped opt3 [0, 0, 1]
   \<and> valid_individual opt3 [1, 1, 0] \<and> grouped opt3 [1, 1, 0] \<and> unit_rng rng0
   \<and> grouped opt3 (fst (createIndividual opt3 rng0))
   \<and> (\<exists>ind' g'. mutate opt3 [0, 0, 1] rng0 = Inr (ind', g') \<and> grouped opt3 ind')
   \<and> (\<exists>offspring1 offspring2 g'. crossover opt3 [0, 0, 1] [1, 1, 0] rng0 = Inr (offspring1, offspring2, g')
            \<and> grouped opt3 offspring1 \<and> grouped opt3 offspring2)
   \<and> (\<exists>ind' g' passes. repairIndividual opt3 [0, 0, 1] rng0 = Inr (ind', g', passes) \<and> grouped opt3 ind')"
proof -
  have v: "valid_individual opt3 [1, 1, 0]" by (simp add: valid_individual_def opt3_simps)
  have g: "grouped opt3 [1, 1, 0]" by (simp add: grouped_def opt3_simps)
  show ?thesis
    using grouping_invariant[of opt3 rng0 "[0, 0, 1]" "[1, 1, 0]"] opt3_valid opt3_grouped v g unit_rng0
    by simp
qed

text \<open>
  Claim C5.  \<open>repairIndividual\<close> returns on every input, after at least one and at most
  100 passes (or with the TypeError of \<open>decodeIndividual\<close>); with the budget used up it
  returns the individual as it is.  A pass within the budget first rebalances the sizes
  when the largest and the smallest team differ by more than one and goes on; otherwise
  it stops when all positions are covered; otherwise it attempts a position repair, goes
  on when a player was moved and returns at once when none could be.
\<close>

theorem repairIndividual_budget:
  "(case repairIndividual opt ind g of
      Inl e \<Rightarrow> e = TypeError
    | Inr (ind', g', passes) \<Rightarrow> 1 \<le> passes \<and> passes \<le> 100)
   \<and> repairIndividual opt ind g = repairLoop opt 0 ind g
   \<and> repairLoop opt 100 ind g = Inr (ind, g, 100)
   \<and> (iteration < 100 \<longrightarrow>
        (case decodeIndividual opt ind of
           Inl e \<Rightarrow> repairLoop opt iteration ind g = Inl e
         | Inr teams \<Rightarrow>
             if sizesUnbalanced (map (\<lambda>t. length (team_players t)) teams)
             then repairLoop opt iteration ind g =
                    (case balanceTeamSizes opt ind (map (\<lambda>t. length (team_players t)) teams) g of
                       (ind', g') \<Rightarrow> repairLoop opt (iteration + 1) ind' g')
             else if checkPositionsCovered (players opt) teams
             then repairLoop opt iteration ind g = Inr (ind, g, iteration + 1)
             else repairLoop opt iteration ind g =
                    (case repairPositions opt ind teams g of
                       (True, ind', g') \<Rightarrow> repairLoop opt (iteration + 1) ind' g'
                     | (False, ind', g') \<Rightarrow> Inr (ind', g', iteration + 1))))"
proof -
  have a: "case repairIndividual opt ind g of
      Inl e \<Rightarrow> e = TypeError
    | Inr (ind', g', passes) \<Rightarrow> 1 \<le> passes \<and> passes \<le> 100"
  proof (cases "repairIndividual opt ind g")
    case (Inl e)
    then show ?thesis using repairLoop_error[of opt 0 ind g e] by (simp add: repairIndividual_def)
  next
    case (Inr r)
    obtain ind' g' n where r: "r = (ind', g', n)" by (cases r)
    show ?thesis using Inr r repairLoop_passes[of opt 0 ind g ind' g' n]
      by (simp add: repairIndividual_def maxIterations_def)
  qed
  have b: "repairLoop opt 100 ind g = Inr (ind, g, 100)"
    by (subst repairLoop.simps) (simp add: maxIterations_def)
  have c: "iteration < 100 \<longrightarrow>
        (case decodeIndividual opt ind of
           Inl e \<Rightarrow> repairLoop opt iteration ind g = Inl e
         | Inr teams \<Rightarrow>
             if sizesUnbalanced (map (\<lambda>t. length (team_players t)) teams)
             then repairLoop opt iteration ind g =
                    (case balanceTeamSizes opt ind (map (\<lambda>t. length (team_players t)) teams) g of
                       (ind', g') \<Rightarrow> repairLoop opt (iteration + 1) ind' g')
             else if checkPositionsCovered (players opt) teams
             then repairLoop opt iteration ind g = Inr (ind, g, iteration + 1)
             else repairLoop opt iteration ind g =
                    (case repairPositions opt ind teams g of
                       (True, ind', g') \<Rightarrow> repairLoop opt (iteration + 1) ind' g'
                     | (False, ind', g') \<Rightarrow> Inr (ind', g', iteration + 1)))"
  proof
    assume "iteration < 100"
    then have lt: "iteration < maxIterations" by (simp add: maxIterations_def)
    show "case decodeIndividual opt ind of
           Inl e \<Rightarrow> repairLoop opt iteration ind g = Inl e
         | Inr teams \<Rightarrow>
             if sizesUnbalanced (map (\<lambda>t. length (team_players t)) teams)
             then repairLoop opt iteration ind g =
                    (case balanceTeamSizes opt ind (map (\<lambda>t. length (team_players t)) teams) g of
                       (ind', g') \<Rightarrow> repairLoop opt (iteration + 1) ind' g')
             else if checkPositionsCovered (players opt) teams
             then repairLoop opt iteration ind g = Inr (ind, g, iteration + 1)
             else repairLoop opt iteration ind g =
                    (case repairPositions opt ind teams g of
                       (True, ind', g') \<Rightarrow> repairLoop opt (iteration + 1) ind' g'
                     | (False, ind', g') \<Rightarrow> Inr (ind', g', iteration + 1))"
      using lt
      by (subst (1 2 3 4) repairLoop.simps[of opt iteration])
         (simp add: repairPass_def Let_def split: sum.splits prod.splits bool.splits)
  qed
  show ?thesis using a b c by (simp add: repairIndividual_def)
qed

theorem repairIndividual_budget_witness:
  "(0::nat) < 100
   \<and> decodeIndividual opt3 [0, 0, 0] = Inr [\<lparr>teamId = 0, team_players = [0, 1, 2]\<rparr>, \<lparr>teamId = 1, team_players = []\<rparr>]
   \<and> sizesUnbalanced [3, 0]
   \<and> repairLoop opt3 0 [0, 0, 0] rng0 =
        (case balanceTeamSizes opt3 [0, 0, 0] [3, 0] rng0 of (ind', g') \<Rightarrow> repairLoop opt3 (0 + 1) ind' g')
   \<and> (case repairIndividual opt3 [0, 0, 0] rng0 of
         Inl e \<Rightarrow> False
       | Inr (ind', g', passes) \<Rightarrow> ind' = [0, 0, 1] \<and> passes = 2)"
proof -
  have d: "decodeIndividual opt3 [0, 0, 0] = Inr [\<lparr>teamId = 0, team_players = [0, 1, 2]\<rparr>, \<lparr>teamId = 1, team_players = []\<rparr>]"
    by code_simp
  have u: "sizesUnbalanced [3, 0]" by code_simp
  have r: "(case repairIndividual opt3 [0, 0, 0] rng0 of
         Inl e \<Rightarrow> False
       | Inr (ind', g', passes) \<Rightarrow> ind' = [0, 0, 1] \<and> passes = 2)" by code_simp
  have s: "map (\<lambda>t. length (team_players t))
             [\<lparr>teamId = 0, team_players = [0, 1, 2]\<rparr>, \<lparr>teamId = 1, team_players = []\<rparr>] = [3, 0]"
    by simp
  have "(0::nat) < 100" by simp
  with repairIndividual_budget[of opt3 "[0, 0, 0]" rng0 0]
  have "case decodeIndividual opt3 [0, 0, 0] of
           Inl e \<Rightarrow> repairLoop opt3 0 [0, 0, 0] rng0 = Inl e
         | Inr teams \<Rightarrow>
             if sizesUnbalanced (map (\<lambda>t. length (team_players t)) teams)
             then repairLoop opt3 0 [0, 0, 0] rng0 =
                    (case balanceTeamSizes opt3 [0, 0, 0] (map (\<lambda>t. length (team_players t)) teams) rng0 of
                       (ind', g') \<Rightarrow> repairLoop opt3 (0 + 1) ind' g')
             else if checkPositionsCovered (players opt3) teams
             then repairLoop opt3 0 [0, 0, 0] rng0 = Inr ([0, 0, 0], rng0, 0 + 1)
             else repairLoop opt3 0 [0, 0, 0] rng0 =
                    (case repairPositions opt3 [0, 0, 0] teams rng0 of
                       (True, ind', g') \<Rightarrow> repairLoop opt3 (0 + 1) ind' g'
                     | (False, ind', g') \<Rightarrow> Inr (ind', g', 0 + 1))"
    by blast
  then have "repairLoop opt3 0 [0, 0, 0] rng0 =
        (case balanceTeamSizes opt3 [0, 0, 0] [3, 0] rng0 of (ind', g') \<Rightarrow> repairLoop opt3 (0 + 1) ind' g')"
    unfolding d sum.case s using u by (simp only: if_True)
  then show ?thesis using d u r by simp
qed

text \<open>
  Claim C6.  \<open>decodeIndividual\<close> is a function of the optimizer and the individual alone.
  For a valid individual it returns \<open>numTeams\<close> teams, team \<open>t\<close> with id \<open>t\<close>; player \<open>i\<close>
  is a member of team \<open>t\<close> exactly when cell \<open>i\<close> holds \<open>t\<close>, so every player is in
  exactly one team, once, and the members of all teams together are all the players.
\<close>

theorem decodeIndividual_partition:
  assumes "valid_individual opt ind"
  shows "\<exists>teams. decodeIndividual opt ind = Inr teams
           \<and> length teams = numTeams opt
           \<and> (\<forall>t < numTeams opt. teamId (teams ! t) = t \<and> distinct (team_players (teams ! t)))
           \<and> (\<forall>i < numPlayers opt. \<forall>t < numTeams opt. i \<in> set (team_players (teams ! t)) \<longleftrightarrow> t = ind ! i)
           \<and> (\<forall>i < numPlayers opt. \<exists>!t. t < numTeams opt \<and> i \<in> set (team_players (teams ! t)))
           \<and> (\<Union>t < numTeams opt. set (team_players (teams ! t))) = {0..<numPlayers opt}"
proof -
  have len: "length ind = numPlayers opt" and cells: "list_all (\<lambda>t. t < numTeams opt) ind"
    using assms by (auto simp: valid_individual_def)
  have cell: "\<And>i. i < numPlayers opt \<Longrightarrow> ind ! i < numTeams opt"
    using len cells by (simp add: list_all_length)
  let ?teams = "map (teamOf ind) [0..<numTeams opt]"
  have d: "decodeIndividual opt ind = Inr ?teams" by (rule decodeIndividual_valid[OF cells])
  have mem: "\<And>i t. t < numTeams opt \<Longrightarrow> i \<in> set (team_players (?teams ! t)) \<longleftrightarrow> i < numPlayers opt \<and> ind ! i = t"
    using len by (auto simp: teamOf_def)
  have "(\<Union>t < numTeams opt. set (team_players (?teams ! t))) = {0..<numPlayers opt}"
  proof (intro set_eqI iffI)
    fix i assume "i \<in> (\<Union>t < numTeams opt. set (team_players (?teams ! t)))"
    then show "i \<in> {0..<numPlayers opt}" using mem by auto
  next
    fix i assume "i \<in> {0..<numPlayers opt}"
    then have "ind ! i < numTeams opt" "i \<in> set (team_players (?teams ! (ind ! i)))"
      using cell mem by auto
    then show "i \<in> (\<Union>t < numTeams opt. set (team_players (?teams ! t)))" by blast
  qed
  moreover have "\<forall>i < numPlayers opt. \<exists>!t. t < numTeams opt \<and> i \<in> set (team_players (?teams ! t))"
  proof (intro allI impI)
    fix i assume i: "i < numPlayers opt"
    show "\<exists>!t. t < numTeams opt \<and> i \<in> set (team_players (?teams ! t))"
      by (rule ex1I[of _ "ind ! i"]) (use i cell mem in auto)
  qed
  moreover have "\<forall>i < numPlayers opt. \<forall>t < numTeams opt. i \<in> set (team_players (?teams ! t)) \<longleftrightarrow> t = ind ! i"
    using mem by auto
  moreover have "\<forall>t < numTeams opt. teamId (?teams ! t) = t \<and> distinct (team_players (?teams ! t))"
    by (simp add: teamOf_def)
  ultimately show ?thesis using d by simp
qed

theorem decodeIndividual_partition_witness:
  "valid_individual opt3 [0, 0, 1]
   \<and> (\<exists>teams. decodeIndividual opt3 [0, 0, 1] = Inr teams
           \<and> length teams = numTeams opt3
           \<and> (\<forall>t < numTeams opt3. teamId (teams ! t) = t \<and> distinct (team_players (teams ! t)))
           \<and> (\<forall>i < numPlayers opt3. \<forall>t < numTeams opt3. i \<in> set (team_players (teams ! t)) \<longleftrightarrow> t = [0, 0, 1] ! i)
           \<and> (\<forall>i < numPlayers opt3. \<exists>!t. t < numTeams opt3 \<and> i \<in> set (team_players (teams ! t)))
           \<and> (\<Union>t < numTeams opt3. set (team_players (teams ! t))) = {0..<numPlayers opt3})"
  using decodeIndividual_partition[OF opt3_valid] opt3_valid by simp

text \<open>
  Claim C9.  Every operation that produces or transforms an individual keeps it valid
  (as many cells as players, every cell a team index below \<open>numTeams\<close>):
  \<open>createIndividual\<close> when there is at least one team, and \<open>mutate\<close>, \<open>crossover\<close>,
  \<open>repairIndividual\<close> and its helpers on valid individuals, the helpers being given
  team ids below \<open>numTeams\<close> and arrays of \<open>numTeams\<close> teams or sizes, as the repair
  loop does.
\<close>

theorem validity_preserved:
  "(0 < numTeams opt \<and> unit_rng g \<longrightarrow> valid_individual opt (fst (createIndividual opt g)))
   \<and> (valid_individual opt ind \<and> unit_rng g \<longrightarrow>
        (\<exists>ind' g'. mutate opt ind g = Inr (ind', g') \<and> valid_individual opt ind')
      \<and> (\<exists>ind' g' passes. repairIndividual opt ind g = Inr (ind', g', passes) \<and> valid_individual opt ind')
      \<and> (valid_individual opt ind2 \<longrightarrow>
           (\<exists>offspring1 offspring2 g'. crossover opt ind ind2 g = Inr (offspring1, offspring2, g')
              \<and> valid_individual opt offspring1 \<and> valid_individual opt offspring2))
      \<and> (length teamSizes = numTeams opt \<longrightarrow>
           valid_individual opt (fst (balanceTeamSizes opt ind teamSizes g)))
      \<and> (toTeamId < numTeams opt \<longrightarrow>
           valid_individual opt (fst (movePlayer opt ind fromTeamId toTeamId g))
         \<and> valid_individual opt (fst (snd (swapPositionPlayer opt ind fromTeamId toTeamId pos g)))
         \<and> valid_individual opt (fst (snd (fixMissingPosition opt ind teams toTeamId pos g))))
      \<and> (length teams = numTeams opt \<longrightarrow>
           valid_individual opt (fst (snd (repairPositions opt ind teams g)))))"
proof (intro conjI impI)
  assume a: "0 < numTeams opt \<and> unit_rng g"
  then have "cfg_ok opt" by (simp add: cfg_ok_def)
  then show "valid_individual opt (fst (createIndividual opt g))"
    using createIndividual_valid a by blast
next
  assume a: "valid_individual opt ind \<and> unit_rng g"
  from a mutate_ok[of opt ind g] show "\<exists>ind' g'. mutate opt ind g = Inr (ind', g') \<and> valid_individual opt ind'"
    using moves_valid by blast
next
  assume a: "valid_individual opt ind \<and> unit_rng g"
  from a repairIndividual_ok[of opt ind g]
  show "\<exists>ind' g' passes. repairIndividual opt ind g = Inr (ind', g', passes) \<and> valid_individual opt ind'"
    using moves_valid by blast
next
  assume a: "valid_individual opt ind \<and> unit_rng g" and b: "valid_individual opt ind2"
  from a b crossover_ok[of opt ind ind2 g]
  show "\<exists>offspring1 offspring2 g'. crossover opt ind ind2 g = Inr (offspring1, offspring2, g')
              \<and> valid_individual opt offspring1 \<and> valid_individual opt offspring2"
    using moves_valid by blast
next
  assume a: "valid_individual opt ind \<and> unit_rng g" and b: "length teamSizes = numTeams opt"
  show "valid_individual opt (fst (balanceTeamSizes opt ind teamSizes g))"
    using balance_moves[of g teamSizes opt ind] a b moves_valid by blast
next
  assume a: "valid_individual opt ind \<and> unit_rng g" and b: "toTeamId < numTeams opt"
  then have t: "team_ok opt toTeamId" by (simp add: team_ok_def)
  show "valid_individual opt (fst (movePlayer opt ind fromTeamId toTeamId g))"
    using movePlayer_moves[of g opt toTeamId ind fromTeamId] a t moves_valid by blast
  have "ok3 opt ind (swapPositionPlayer opt ind fromTeamId toTeamId pos g)"
    using a t by (intro ok3_swap) (auto intro: moves.same)
  then show "valid_individual opt (fst (snd (swapPositionPlayer opt ind fromTeamId toTeamId pos g)))"
    using a moves_valid by (auto simp: ok3_def case_prod_beta)
  have "ok3 opt ind (fixMissingPosition opt ind teams toTeamId pos g)"
    using a t by (intro ok3_fixMissingPosition) (auto intro: moves.same)
  then show "valid_individual opt (fst (snd (fixMissingPosition opt ind teams toTeamId pos g)))"
    using a moves_valid by (auto simp: ok3_def case_prod_beta)
next
  assume a: "valid_individual opt ind \<and> unit_rng g" and b: "length teams = numTeams opt"
  have "ok3 opt ind (repairPositions opt ind teams g)"
    using a b by (intro ok3_repairPositions) auto
  then show "valid_individual opt (fst (snd (repairPositions opt ind teams g)))"
    using a moves_valid by (auto simp: ok3_def case_prod_beta)
qed

theorem validity_preserved_witness:
  "0 < numTeams opt3 \<and> unit_rng rng0 \<and> valid_individual opt3 [0, 0, 1] \<and> valid_individual opt3 [1, 1, 0]
   \<and> length [2, 1 :: nat] = numTeams opt3 \<and> length [Team_new 0, Team_new 1] = numTeams opt3
   \<and> (1 :: nat) < numTeams opt3
   \<and> valid_individual opt3 (fst (createIndividual opt3 rng0))
   \<and> (\<exists>ind' g'. mutate opt3 [0, 0, 1] rng0 = Inr (ind', g') \<and> valid_individual opt3 ind')
   \<and> (\<exists>ind' g' passes. repairIndividual opt3 [0, 0, 1] rng0 = Inr (ind', g', passes) \<and> valid_individual opt3 ind')
   \<and> (\<exists>offspring1 offspring2 g'. crossover opt3 [0, 0, 1] [1, 1, 0] rng0 = Inr (offspring1, offspring2, g')
              \<and> valid_individual opt3 offspring1 \<and> valid_individual opt3 offspring2)
   \<and> valid_individual opt3 (fst (balanceTeamSizes opt3 [0, 0, 1] [2, 1] rng0))
   \<and> valid_individual opt3 (fst (movePlayer opt3 [0, 0, 1] 0 1 rng0))
   \<and> valid_individual opt3 (fst (snd (swapPositionPlayer opt3 [0, 0, 1] 0 1 ''OF'' rng0)))
   \<and> valid_individual opt3 (fst (snd (fixMissingPosition opt3 [0, 0, 1] [Team_new 0, Team_new 1] 1 ''OF'' rng0)))
   \<and> valid_individual opt3 (fst (snd (repairPositions opt3 [0, 0, 1] [Team_new 0, Team_new 1] rng0)))"
proof -
  have v: "valid_individual opt3 [1, 1, 0]" by (simp add: valid_individual_def opt3_simps)
  show ?thesis
    using validity_preserved[of opt3 rng0 "[0, 0, 1]" "[1, 1, 0]" "[2, 1]" 1 0 "''OF''" "[Team_new 0, Team_new 1]"]
      opt3_valid v unit_rng0
    by (simp add: opt3_simps)
qed

text \<open>
  Claim C3, as the code has it.  The donor search of \<open>fixMissingPosition\<close> has two tiers
  over the teams other than the needy one, and in both only a team with a matching
  player outside every co-assign group can give one.  The first tier takes the first
  such team with a surplus: more than one player of an ordinary role, more than three
  outfield-capable players.  If there is none, the second tier takes the first such team
  with at least one player of an ordinary role, or with more than two outfield-capable
  players.  One matching free player of that team moves to the needy team.  If there is
  no such team either, it reports failure and leaves the individual and the random
  source as they were.
\<close>

theorem fixMissingPosition_two_tiers:
  assumes "unit_rng g"
  shows "case fixMissingPosition opt ind teams needy pos g of
           (moved, ind', g') \<Rightarrow>
             (case find (\<lambda>t. t \<noteq> needy
                          \<and> (if pos = ''OF'' then 3 < getPositionCount (players opt) (teams ! t) ''OF''
                              else 1 < getPositionCount (players opt) (teams ! t) pos)
                          \<and> freeDonors opt ind t pos \<noteq> []) [0..<length teams] of
                Some t \<Rightarrow> moved \<and> (\<exists>idx \<in> set (freeDonors opt ind t pos). ind' = ind[idx := needy])
              | None \<Rightarrow>
                  (case find (\<lambda>t. t \<noteq> needy
                               \<and> (if pos = ''OF'' then 2 < getPositionCount (players opt) (teams ! t) ''OF''
                                   else 0 < getPositionCount (players opt) (teams ! t) pos)
                               \<and> freeDonors opt ind t pos \<noteq> []) [0..<length teams] of
                     Some t \<Rightarrow> moved \<and> (\<exists>idx \<in> set (freeDonors opt ind t pos). ind' = ind[idx := needy])
                   | None \<Rightarrow> \<not> moved \<and> ind' = ind \<and> g' = g))"
proof -
  have sw: "\<And>t. freeDonors opt ind t pos \<noteq> [] \<Longrightarrow>
      (case swapPositionPlayer opt ind t needy pos g of
         (moved, ind', g') \<Rightarrow> moved \<and> (\<exists>idx \<in> set (freeDonors opt ind t pos). ind' = ind[idx := needy]))"
    using swap_some[OF _ assms, of opt ind _ pos needy] by fastforce
  have e1: "(\<lambda>t. t \<noteq> needy
                          \<and> (if pos = ''OF'' then 3 < getPositionCount (players opt) (teams ! t) ''OF''
                              else 1 < getPositionCount (players opt) (teams ! t) pos)
                          \<and> freeDonors opt ind t pos \<noteq> [])
          = (\<lambda>t. t \<noteq> needy \<and> firstTry (players opt) (teams ! t) pos \<and> freeDonors opt ind t pos \<noteq> [])"
    by (simp add: firstTry_def)
  have e2: "(\<lambda>t. t \<noteq> needy
                               \<and> (if pos = ''OF'' then 2 < getPositionCount (players opt) (teams ! t) ''OF''
                                   else 0 < getPositionCount (players opt) (teams ! t) pos)
                               \<and> freeDonors opt ind t pos \<noteq> [])
          = (\<lambda>t. t \<noteq> needy \<and> secondTry (players opt) (teams ! t) pos \<and> freeDonors opt ind t pos \<noteq> [])"
    by (simp add: secondTry_def)
  let ?f1 = "find (\<lambda>t. t \<noteq> needy \<and> firstTry (players opt) (teams ! t) pos \<and> freeDonors opt ind t pos \<noteq> [])
               [0..<length teams]"
  let ?f2 = "find (\<lambda>t. t \<noteq> needy \<and> secondTry (players opt) (teams ! t) pos \<and> freeDonors opt ind t pos \<noteq> [])
               [0..<length teams]"
  show ?thesis
  proof (cases ?f1)
    case (Some t)
    then have "freeDonors opt ind t pos \<noteq> []" by (auto simp: find_Some_iff)
    from sw[OF this] show ?thesis
      unfolding e1 e2 fixMissingPosition_find Some by simp
  next
    case None
    show ?thesis
    proof (cases ?f2)
      case n2: None
      show ?thesis unfolding e1 e2 fixMissingPosition_find None n2 by simp
    next
      case (Some t)
      then have "freeDonors opt ind t pos \<noteq> []" by (auto simp: find_Some_iff)
      from sw[OF this] show ?thesis
        unfolding e1 e2 fixMissingPosition_find None Some by simp
    qed
  qed
qed

text \<open>
  Claim C3 as stated fails for outfield capability: a team with two free outfielders,
  hence with at least one qualifying player, is no donor in either tier.
\<close>

theorem fixMissingPosition_outfield_counterexample:
  "valid_individual optOF [0, 1, 1]
   \<and> decodeIndividual optOF [0, 1, 1] = Inr [\<lparr>teamId = 0, team_players = [0]\<rparr>, \<lparr>teamId = 1, team_players = [1, 2]\<rparr>]
   \<and> getPositionCount (players optOF) \<lparr>teamId = 0, team_players = [0]\<rparr> ''OF'' = 0
   \<and> getPositionCount (players optOF) \<lparr>teamId = 1, team_players = [1, 2]\<rparr> ''OF'' = 2
   \<and> freeDonors optOF [0, 1, 1] 1 ''OF'' = [1, 2]
   \<and> (case fixMissingPosition optOF [0, 1, 1]
               [\<lparr>teamId = 0, team_players = [0]\<rparr>, \<lparr>teamId = 1, team_players = [1, 2]\<rparr>] 0 ''OF'' rng0 of
         (moved, ind', g') \<Rightarrow> \<not> moved \<and> ind' = [0, 1, 1])"
  by code_simp

theorem fixMissingPosition_two_tiers_witness:
  "unit_rng rng0
   \<and> (case fixMissingPosition optOF [0, 1, 1]
               [\<lparr>teamId = 0, team_players = [0]\<rparr>, \<lparr>teamId = 1, team_players = [1, 2]\<rparr>] 1 ''P'' rng0 of
         (moved, ind', g') \<Rightarrow> moved \<and> ind' = [1, 1, 1])"
proof -
  let ?teams = "[\<lparr>teamId = 0, team_players = [0]\<rparr>, \<lparr>teamId = 1, team_players = [1, 2]\<rparr>]"
  have f1: "find (\<lambda>t. t \<noteq> 1
                   \<and> (if ''P'' = ''OF'' then 3 < getPositionCount (players optOF) (?teams ! t) ''OF''
                       else 1 < getPositionCount (players optOF) (?teams ! t) ''P'')
                   \<and> freeDonors optOF [0, 1, 1] t ''P'' \<noteq> []) [0..<length ?teams] = None"
    by code_simp
  have f2: "find (\<lambda>t. t \<noteq> 1
                   \<and> (if ''P'' = ''OF'' then 2 < getPositionCount (players optOF) (?teams ! t) ''OF''
                       else 0 < getPositionCount (players optOF) (?teams ! t) ''P'')
                   \<and> freeDonors optOF [0, 1, 1] t ''P'' \<noteq> []) [0..<length ?teams] = Some 0"
    by code_simp
  have d: "freeDonors optOF [0, 1, 1] 0 ''P'' = [0]" by code_simp
  show ?thesis
    using fixMissingPosition_two_tiers[OF unit_rng0, where opt = optOF and ind = "[0, 1, 1]" and teams = ?teams
            and needy = 1 and pos = "''P''"]
    unfolding f1 f2 d option.case
    by (auto simp: unit_rng0)
qed

text \<open>
  Claim C10.  \<open>swapPositionPlayer\<close> relocates only a player that belongs to no co-assign
  group (one that is on the donor team and matches the position); when every matching
  player of the donor team is in a group it returns false and leaves the individual and
  the random source unchanged.  So position repair can fail although a qualifying
  player exists: in the example configuration team 1 has no pitcher, the pitcher of
  team 0 is in group 7, and \<open>fixMissingPosition\<close> fails for every random source.
\<close>

theorem swapPositionPlayer_free_only:
  "(unit_rng g \<and> swapPositionPlayer opt ind donorTeamId recipientTeamId pos g = (True, ind', g') \<longrightarrow>
      (\<exists>idx < length ind. ind ! idx = donorTeamId \<and> isMatch (players opt ! idx) pos
          \<and> \<not> isCoAssigned opt idx \<and> ind' = ind[idx := recipientTeamId]))
   \<and> ((\<forall>i < length ind. ind ! i = donorTeamId \<and> isMatch (players opt ! i) pos \<longrightarrow> isCoAssigned opt i) \<longrightarrow>
        swapPositionPlayer opt ind donorTeamId recipientTeamId pos g = (False, ind, g))
   \<and> isCoAssigned opt3 0 \<and> [0, 0, 1] ! 0 = (0::nat) \<and> isMatch (players opt3 ! 0) ''P''
   \<and> decodeIndividual opt3 [0, 0, 1] = Inr [\<lparr>teamId = 0, team_players = [0, 1]\<rparr>, \<lparr>teamId = 1, team_players = [2]\<rparr>]
   \<and> getPositionCount (players opt3) \<lparr>teamId = 1, team_players = [2]\<rparr> ''P'' = 0
   \<and> fixMissingPosition opt3 [0, 0, 1]
         [\<lparr>teamId = 0, team_players = [0, 1]\<rparr>, \<lparr>teamId = 1, team_players = [2]\<rparr>] 1 ''P'' g = (False, [0, 0, 1], g)"
proof -
  have a: "unit_rng g \<and> swapPositionPlayer opt ind donorTeamId recipientTeamId pos g = (True, ind', g') \<longrightarrow>
      (\<exists>idx < length ind. ind ! idx = donorTeamId \<and> isMatch (players opt ! idx) pos
          \<and> \<not> isCoAssigned opt idx \<and> ind' = ind[idx := recipientTeamId])"
    using swap_cases[of g opt ind donorTeamId recipientTeamId pos]
    by (auto simp: freeDonors_def)
  have b: "(\<forall>i < length ind. ind ! i = donorTeamId \<and> isMatch (players opt ! i) pos \<longrightarrow> isCoAssigned opt i) \<longrightarrow>
        swapPositionPlayer opt ind donorTeamId recipientTeamId pos g = (False, ind, g)"
    using swap_none[of opt ind donorTeamId pos recipientTeamId g] by (simp add: freeDonors_empty_iff)
  have c: "isCoAssigned opt3 0 \<and> [0, 0, 1] ! 0 = (0::nat) \<and> isMatch (players opt3 ! 0) ''P''
     \<and> decodeIndividual opt3 [0, 0, 1] = Inr [\<lparr>teamId = 0, team_players = [0, 1]\<rparr>, \<lparr>teamId = 1, team_players = [2]\<rparr>]
     \<and> getPositionCount (players opt3) \<lparr>teamId = 1, team_players = [2]\<rparr> ''P'' = 0"
    by code_simp
  have f1: "find (\<lambda>t. t \<noteq> 1 \<and> firstTry (players opt3) ([\<lparr>teamId = 0, team_players = [0, 1]\<rparr>, \<lparr>teamId = 1, team_players = [2]\<rparr>] ! t) ''P''
                    \<and> freeDonors opt3 [0, 0, 1] t ''P'' \<noteq> [])
             [0..<length [\<lparr>teamId = 0, team_players = [0, 1]\<rparr>, \<lparr>teamId = 1, team_players = [2]\<rparr>]] = None"
    by code_simp
  have f2: "find (\<lambda>t. t \<noteq> 1 \<and> secondTry (players opt3) ([\<lparr>teamId = 0, team_players = [0, 1]\<rparr>, \<lparr>teamId = 1, team_players = [2]\<rparr>] ! t) ''P''
                    \<and> freeDonors opt3 [0, 0, 1] t ''P'' \<noteq> [])
             [0..<length [\<lparr>teamId = 0, team_players = [0, 1]\<rparr>, \<lparr>teamId = 1, team_players = [2]\<rparr>]] = None"
    by code_simp
  have d: "fixMissingPosition opt3 [0, 0, 1]
         [\<lparr>teamId = 0, team_players = [0, 1]\<rparr>, \<lparr>teamId = 1, team_players = [2]\<rparr>] 1 ''P'' g = (False, [0, 0, 1], g)"
    unfolding fixMissingPosition_find f1 f2 by simp
  show ?thesis using a b c d by blast
qed

theorem swapPositionPlayer_free_only_witness:
  "unit_rng rng0
   \<and> fst (swapPositionPlayer optOF [0, 1, 1] 0 1 ''P'' rng0)
   \<and> fst (snd (swapPositionPlayer optOF [0, 1, 1] 0 1 ''P'' rng0)) = [1, 1, 1]
   \<and> (\<exists>idx < length [0, 1, 1 :: nat]. [0, 1, 1] ! idx = (0::nat) \<and> isMatch (players optOF ! idx) ''P''
          \<and> \<not> isCoAssigned optOF idx \<and> [1, 1, 1] = [0, 1, 1 :: nat][idx := 1])
   \<and> filter (\<lambda>i. [0, 0, 1] ! i = (0::nat) \<and> isMatch (players opt3 ! i) ''P'') [0..<length [0, 0, 1 :: nat]] = [0]
   \<and> isCoAssigned opt3 0
   \<and> swapPositionPlayer opt3 [0, 0, 1] 0 1 ''P'' rng0 = (False, [0, 0, 1], rng0)"
proof -
  have e: "fst (swapPositionPlayer optOF [0, 1, 1] 0 1 ''P'' rng0)
           \<and> fst (snd (swapPositionPlayer optOF [0, 1, 1] 0 1 ''P'' rng0)) = [1, 1, 1]"
    by code_simp
  then have s: "swapPositionPlayer optOF [0, 1, 1] 0 1 ''P'' rng0
                = (True, [1, 1, 1], snd (snd (swapPositionPlayer optOF [0, 1, 1] 0 1 ''P'' rng0)))"
    by (cases "swapPositionPlayer optOF [0, 1, 1] 0 1 ''P'' rng0") auto
  have f: "filter (\<lambda>i. [0, 0, 1] ! i = (0::nat) \<and> isMatch (players opt3 ! i) ''P'') [0..<length [0, 0, 1 :: nat]] = [0]
           \<and> isCoAssigned opt3 0"
    by code_simp
  have "freeDonors opt3 [0, 0, 1] 0 ''P'' = []" by code_simp
  then have h: "\<forall>i < length [0, 0, 1 :: nat]. [0, 0, 1] ! i = (0::nat) \<and> isMatch (players opt3 ! i) ''P'' \<longrightarrow> isCoAssigned opt3 i"
    by (simp only: freeDonors_empty_iff)
  have 1: "\<exists>idx < length [0, 1, 1 :: nat]. [0, 1, 1] ! idx = (0::nat) \<and> isMatch (players optOF ! idx) ''P''
          \<and> \<not> isCoAssigned optOF idx \<and> [1, 1, 1] = [0, 1, 1 :: nat][idx := 1]"
    by (rule swapPositionPlayer_free_only[where opt = optOF and ind = "[0, 1, 1]" and donorTeamId = 0
               and recipientTeamId = 1 and pos = "''P''" and g = rng0 and ind' = "[1, 1, 1]"
               and g' = "snd (snd (swapPositionPlayer optOF [0, 1, 1] 0 1 ''P'' rng0))",
             THEN conjunct1, THEN mp, OF conjI[OF unit_rng0 s]])
  have 2: "swapPositionPlayer opt3 [0, 0, 1] 0 1 ''P'' rng0 = (False, [0, 0, 1], rng0)"
    by (rule swapPositionPlayer_free_only[where opt = opt3 and ind = "[0, 0, 1]" and donorTeamId = 0
               and recipientTeamId = 1 and pos = "''P''" and g = rng0,
             THEN conjunct2, THEN conjunct1, THEN mp, OF h])
  show ?thesis
    by (intro conjI)
       (rule unit_rng0 e[THEN conjunct1] e[THEN conjunct2] 1 f[THEN conjunct1] f[THEN conjunct2] 2)+
qed






text \<open>
  Claim C7 at a failing input.  In the same run the two events are the report of
  generation 0 and the final report; the final report carries the best fitness 205002.5
  in its \<open>avgFitness\<close> field, while the mean fitness of the current population
  \<open>[[0, 0], [1, 0]]\<close> is 203501.25.
\<close>

theorem final_report_avgFitness:
  "(case optimize optDH rng0 of
      Inl e \<Rightarrow> False
    | Inr (teams, st) \<Rightarrow>
        events st = [\<lparr>generation = 0, bestFitness = 410005 / 2, avgFitness = 410005 / 2, completed = False\<rparr>,
                     \<lparr>generation = 1, bestFitness = 410005 / 2, avgFitness = 410005 / 2, completed = True\<rparr>]
        \<and> population st = [[0, 0], [1, 0]]
        \<and> evaluateAll optDH (population st) = Inr [410005 / 2, 202000]
        \<and> reduce_sum [410005 / 2, 202000] / real (length [410005 / 2, 202000 :: real]) = 814005 / 4
        \<and> avgFitness (last (events st)) = 410005 / 2
        \<and> avgFitness (last (events st)) \<noteq> 814005 / 4)"
  unfolding optDH_optimize by (simp add: optDH_evaluateAll[simplified] reduce_sum_def)

text \<open>
  Claim C8, as the code has it.  \<open>variance\<close> returns 0 for an empty and for a
  single-element collection.  For two or more values it is the population variance
  with every operation rounded to a double: the mean is the rounded sum divided by the
  number of values, and the result is the rounded sum of the rounded squares of the
  rounded deviations from that mean, divided by the number of values (not by one less).
  For two doubles the result does not depend on their order, and it is 0 for a pair
  \<open>[a, a]\<close> whenever \<open>a + a\<close> is finite.  The same formula evaluated in exact arithmetic
  is the population variance, is 0 for every constant collection and is the same for
  every reordering of the values.
\<close>

theorem variance_population:
  "variance_double [] = dzero \<and> variance_double [d] = dzero
   \<and> (2 \<le> length ds \<longrightarrow>
        variance_double ds
        = ddiv_count (reduce_dsum (map (\<lambda>v. dsquare (dsub v (ddiv_count (reduce_dsum ds) (length ds)))) ds))
            (length ds))
   \<and> (is_double a \<and> is_double b \<longrightarrow> variance_double [a, b] = variance_double [b, a])
   \<and> (is_double a \<and> is_finite (dadd a a) \<longrightarrow> variance_double [a, a] = dzero)
   \<and> variance [] = 0 \<and> variance [x] = 0
   \<and> (2 \<le> length xs \<longrightarrow>
        variance xs = (\<Sum>x\<leftarrow>xs. (x - sum_list xs / real (length xs))\<^sup>2) / real (length xs))
   \<and> variance (replicate n x) = 0
   \<and> (mset xs = mset ys \<longrightarrow> variance xs = variance ys)"
  using variance_double_formula[of ds] variance_double_swap[of a b] variance_double_pair_const[of a]
    variance_formula[of xs] variance_mset[of xs ys]
  by (simp add: variance_double_small variance_small variance_replicate)

theorem variance_population_witness:
  "(2::nat) \<le> length [tenth, tenth, fifth]
   \<and> is_double tenth \<and> is_double fifth \<and> is_finite (dadd tenth tenth)
   \<and> variance_double [tenth, tenth, fifth]
       = ddiv_count (reduce_dsum (map (\<lambda>v. dsquare (dsub v (ddiv_count (reduce_dsum [tenth, tenth, fifth])
                                                                  (length [tenth, tenth, fifth]))))
                                      [tenth, tenth, fifth]))
           (length [tenth, tenth, fifth])
   \<and> variance_double [tenth, fifth] = variance_double [fifth, tenth]
   \<and> variance_double [tenth, tenth] = dzero
   \<and> (2::nat) \<le> length [1, 2, 6 :: real] \<and> mset [1, 2, 6 :: real] = mset [6, 1, 2]
   \<and> variance [1, 2, 6] = (\<Sum>x\<leftarrow>[1, 2, 6]. (x - sum_list [1, 2, 6] / real (length [1, 2, 6 :: real]))\<^sup>2)
                           / real (length [1, 2, 6 :: real])
   \<and> variance [1, 2, 6] = 14 / 3
   \<and> variance [1, 2, 6] = variance [6, 1, 2]"
proof -
  have l: "(2::nat) \<le> length [tenth, tenth, fifth]" by simp
  have i: "is_double tenth" "is_double fifth" by (rule double_constants)+
  have s: "dadd tenth tenth = fifth" by code_simp
  have n: "is_finite (dadd tenth tenth)" unfolding s double_constants(2) by (simp add: is_finite_def)
  have k: "(2::nat) \<le> length [1, 2, 6 :: real]" by simp
  have m: "mset [1, 2, 6 :: real] = mset [6, 1, 2]" by simp
  note t = variance_population[where ds = "[tenth, tenth, fifth]" and a = tenth and b = fifth
      and xs = "[1, 2, 6]" and ys = "[6, 1, 2]"]
  note t3 = t[THEN conjunct2, THEN conjunct2]
  note t4 = t3[THEN conjunct2]
  note t5 = t4[THEN conjunct2]
  note t8 = t5[THEN conjunct2, THEN conjunct2, THEN conjunct2]
  note t10 = t8[THEN conjunct2, THEN conjunct2]
  have f: "variance_double [tenth, tenth, fifth]
       = ddiv_count (reduce_dsum (map (\<lambda>v. dsquare (dsub v (ddiv_count (reduce_dsum [tenth, tenth, fifth])
                                                                  (length [tenth, tenth, fifth]))))
                                      [tenth, tenth, fifth]))
           (length [tenth, tenth, fifth])"
    by (rule t3[THEN conjunct1, THEN mp, OF l])
  have w: "variance_double [tenth, fifth] = variance_double [fifth, tenth]"
    by (rule t4[THEN conjunct1, THEN mp, OF conjI, OF i])
  have c: "variance_double [tenth, tenth] = dzero"
    by (rule t5[THEN conjunct1, THEN mp, OF conjI, OF i(1) n])
  have g: "variance [1, 2, 6] = (\<Sum>x\<leftarrow>[1, 2, 6]. (x - sum_list [1, 2, 6] / real (length [1, 2, 6 :: real]))\<^sup>2)
                           / real (length [1, 2, 6 :: real])"
    by (rule t8[THEN conjunct1, THEN mp, OF k])
  have p: "variance [1, 2, 6] = variance [6, 1, 2]"
    by (rule t10[THEN mp, OF m])
  have v: "variance [1, 2, 6] = 14 / 3" unfolding g by (simp add: power2_eq_square)
  show ?thesis
    by (intro conjI l i n f w c k m g v p)
qed

text \<open>
  Claim C8 as stated fails in the arithmetic the program runs in.  With the doubles
  written \<open>0.1\<close> and \<open>0.2\<close>: the sum \<open>0.1 + 0.1 + 0.1\<close> rounds to
  \<open>0.30000000000000004\<close>, its third to \<open>0.10000000000000002\<close>, and the variance of
  the constant collection \<open>[0.1, 0.1, 0.1]\<close> is \<open>2 ^ -112\<close>, not 0; the variances of
  \<open>[0.1, 0.1, 0.2]\<close> and of its reordering \<open>[0.1, 0.2, 0.1]\<close> differ in the last place;
  and the variance of the constant collection \<open>[1e308, 1e308]\<close> is \<open>Infinity\<close>, since
  the sum overflows.
\<close>

theorem variance_double_counterexample:
  "tenth = Double 7205759403792794 (- 56) \<and> fifth = Double 7205759403792794 (- 55)
   \<and> is_double tenth \<and> is_double fifth \<and> is_double d1e308
   \<and> variance_double [tenth, tenth, tenth] = Double 4503599627370496 (- 164)
   \<and> dval (variance_double [tenth, tenth, tenth]) = Some (2 powi (- 112))
   \<and> variance_double [tenth, tenth, tenth] \<noteq> dzero
   \<and> mset [tenth, tenth, fifth] = mset [tenth, fifth, tenth]
   \<and> variance_double [tenth, tenth, fifth] = Double 5124095576030432 (- 61)
   \<and> variance_double [tenth, fifth, tenth] = Double 5124095576030431 (- 61)
   \<and> dval (variance_double [tenth, tenth, fifth]) \<noteq> dval (variance_double [tenth, fifth, tenth])
   \<and> variance_double [d1e308, d1e308] = PosInf
   \<and> variance_double [d1e308, d1e308] \<noteq> dzero"
proof -
  have 3: "variance_double [tenth, tenth, tenth] = Double 4503599627370496 (- 164)" by code_simp
  have 4: "variance_double [tenth, tenth, fifth] = Double 5124095576030432 (- 61)" by code_simp
  have 5: "variance_double [tenth, fifth, tenth] = Double 5124095576030431 (- 61)" by code_simp
  have 6: "dval (variance_double [tenth, tenth, tenth]) = Some (2 powi (- 112))"
    unfolding 3 by (simp add: dval_def power_int_minus)
  have 7: "variance_double [tenth, tenth, tenth] \<noteq> dzero"
    unfolding 3 by (simp add: dzero_def)
  have 8: "mset [tenth, tenth, fifth] = mset [tenth, fifth, tenth]" by simp
  have 9: "dval (variance_double [tenth, tenth, fifth]) \<noteq> dval (variance_double [tenth, fifth, tenth])"
    unfolding 4 5 by (simp add: dval_def)
  have 10: "variance_double [d1e308, d1e308] \<noteq> dzero"
    unfolding variance_double_overflow by (simp add: dzero_def)
  show ?thesis
    by (intro conjI double_constants(1,2,3,4,8) 3 6 7 8 4 5 9 variance_double_overflow 10)
qed

end
